theory Spec2Isabelle
  imports Main "HOL-Library.Word" "HOL-Library.Product_Lexorder"
begin

section \<open>Data model\<close>

text \<open>
  A Python \<open>str\<close> is a sequence of code points, a \<open>bytes\<close> object a sequence of
  8-bit values, a token id a Python integer. A pair of adjacent tokens is a tuple of two
  ids. \<open>self.merges\<close> and \<open>self.vocab\<close> are dictionaries that are only looked up,
  updated and tested for membership, so they are maps; the two fields of the tokenizer
  object form a record.
\<close>

type_synonym byte = "8 word"
type_synonym pair = "int \<times> int"

record tokenizer =
  merges :: "pair \<rightharpoonup> int"
  vocab :: "int \<rightharpoonup> byte list"

datatype error =
    AssertionError
  | UnicodeEncodeError
  | ValueError
  | IndexError
  | KeyError int

section \<open>The built-in operations the source calls\<close>

subsection \<open>\<open>str.encode("utf-8")\<close>\<close>

definition utf8_encode_cp :: "int \<Rightarrow> int list option" where
  "utf8_encode_cp c =
     (if c < 0 then None
      else if c < 0x80 then Some [c]
      else if c < 0x800 then Some [0xC0 + c div 64, 0x80 + c mod 64]
      else if c < 0x10000 then
        (if 0xD800 \<le> c \<and> c \<le> 0xDFFF then None
         else Some [0xE0 + c div 4096, 0x80 + (c div 64) mod 64, 0x80 + c mod 64])
      else if c < 0x110000 then
        Some [0xF0 + c div 262144, 0x80 + (c div 4096) mod 64,
              0x80 + (c div 64) mod 64, 0x80 + c mod 64]
      else None)"

fun utf8_encode_ints :: "int list \<Rightarrow> int list option" where
  "utf8_encode_ints [] = Some []"
| "utf8_encode_ints (c # cs) =
     (case utf8_encode_cp c of
        None \<Rightarrow> None
      | Some bs \<Rightarrow> (case utf8_encode_ints cs of None \<Rightarrow> None | Some rest \<Rightarrow> Some (bs @ rest)))"

text \<open>
  A string with a surrogate code point cannot be encoded: Python raises
  \<open>UnicodeEncodeError\<close>.
\<close>

definition utf8_encode :: "int list \<Rightarrow> error + byte list" where
  "utf8_encode s =
     (case utf8_encode_ints s of
        None \<Rightarrow> Inl UnicodeEncodeError
      | Some bs \<Rightarrow> Inr (map word_of_int bs))"

subsection \<open>\<open>bytes.decode("utf-8", errors="replace")\<close>\<close>

definition is_cont :: "int \<Rightarrow> bool" where
  "is_cont b = (0x80 \<le> b \<and> b < 0xC0)"

text \<open>
  The decoder reads one sequence at a time. A byte that cannot start a sequence, and
  every maximal prefix of a sequence that is cut short or continued by a wrong byte, is
  replaced by U+FFFD, and decoding goes on behind it.
\<close>

fun utf8_decode_ints :: "int list \<Rightarrow> int list" where
  "utf8_decode_ints [] = []"
| "utf8_decode_ints (ch # s) =
     (if ch < 0x80 then ch # utf8_decode_ints s
      else if ch < 0xC2 then 0xFFFD # utf8_decode_ints s
      else if ch < 0xE0 then
        (case s of
           [] \<Rightarrow> [0xFFFD]
         | ch2 # s2 \<Rightarrow>
             if \<not> is_cont ch2 then 0xFFFD # utf8_decode_ints s
             else ((ch - 0xC0) * 64 + (ch2 - 0x80)) # utf8_decode_ints s2)
      else if ch < 0xF0 then
        (case s of
           [] \<Rightarrow> [0xFFFD]
         | ch2 # s2 \<Rightarrow>
             if \<not> is_cont ch2 \<or> (if ch2 < 0xA0 then ch = 0xE0 else ch = 0xED)
             then 0xFFFD # utf8_decode_ints s
             else
               (case s2 of
                  [] \<Rightarrow> [0xFFFD]
                | ch3 # s3 \<Rightarrow>
                    if \<not> is_cont ch3 then 0xFFFD # utf8_decode_ints s2
                    else ((ch - 0xE0) * 4096 + (ch2 - 0x80) * 64 + (ch3 - 0x80))
                           # utf8_decode_ints s3))
      else if ch < 0xF5 then
        (case s of
           [] \<Rightarrow> [0xFFFD]
         | ch2 # s2 \<Rightarrow>
             if \<not> is_cont ch2 \<or> (if ch2 < 0x90 then ch = 0xF0 else ch = 0xF4)
             then 0xFFFD # utf8_decode_ints s
             else
               (case s2 of
                  [] \<Rightarrow> [0xFFFD]
                | ch3 # s3 \<Rightarrow>
                    if \<not> is_cont ch3 then 0xFFFD # utf8_decode_ints s2
                    else
                      (case s3 of
                         [] \<Rightarrow> [0xFFFD]
                       | ch4 # s4 \<Rightarrow>
                           if \<not> is_cont ch4 then 0xFFFD # utf8_decode_ints s3
                           else ((ch - 0xF0) * 262144 + (ch2 - 0x80) * 4096
                                   + (ch3 - 0x80) * 64 + (ch4 - 0x80))
                                  # utf8_decode_ints s4)))
      else 0xFFFD # utf8_decode_ints s)"

definition utf8_decode :: "byte list \<Rightarrow> int list" where
  "utf8_decode bs = utf8_decode_ints (map uint bs)"

subsection \<open>\<open>max\<close> and \<open>min\<close> with a key\<close>

text \<open>
  Both walk the iterable once and keep the element seen first among those with the best
  key: the candidate is replaced only by a strictly better one. On an empty iterable
  they raise \<open>ValueError\<close>.
\<close>

fun select_first :: "('k \<Rightarrow> 'k \<Rightarrow> bool) \<Rightarrow> ('a \<Rightarrow> 'k) \<Rightarrow> 'a \<Rightarrow> 'a list \<Rightarrow> 'a" where
  "select_first better key best [] = best"
| "select_first better key best (x # xs) =
     select_first better key (if better (key x) (key best) then x else best) xs"

definition py_max :: "('a \<Rightarrow> 'k::linorder) \<Rightarrow> 'a list \<Rightarrow> error + 'a" where
  "py_max key xs =
     (case xs of [] \<Rightarrow> Inl ValueError | x # rest \<Rightarrow> Inr (select_first (\<lambda>a b. b < a) key x rest))"

definition py_min :: "('k \<Rightarrow> 'k \<Rightarrow> bool) \<Rightarrow> ('a \<Rightarrow> 'k) \<Rightarrow> 'a list \<Rightarrow> error + 'a" where
  "py_min less_key key xs =
     (case xs of [] \<Rightarrow> Inl ValueError | x # rest \<Rightarrow> Inr (select_first less_key key x rest))"

section \<open>The helpers of \<open>minbpe/base.py\<close>\<close>

text \<open>
  \<open>get_stats\<close> returns a dictionary, whose iteration order is the order in which its
  keys were inserted; \<open>max\<close> and \<open>min\<close> over it depend on that order. The model is
  an association list in insertion order.
\<close>

fun bump :: "pair \<Rightarrow> (pair \<times> nat) list \<Rightarrow> (pair \<times> nat) list" where
  "bump p [] = [(p, 1)]"
| "bump p ((q, c) # rest) = (if p = q then (q, Suc c) # rest else (q, c) # bump p rest)"

text \<open>
  Modelled from the spec: \<open>get_stats\<close> of \<open>minbpe/base.py\<close> (PairStatistics, section
  4.1): one left-to-right pass that counts every adjacent pair \<open>(seq[i], seq[i+1])\<close>;
  a pair that does not occur is absent.
\<close>

definition get_stats :: "int list \<Rightarrow> (pair \<times> nat) list" where
  "get_stats ids = foldl (\<lambda>counts p. bump p counts) [] (zip ids (tl ids))"

text \<open>
  Modelled from the spec: \<open>merge\<close> of \<open>minbpe/base.py\<close> (MergeApplicator, section
  4.3): a single left-to-right greedy scan; where the current and the next element are
  the pair, the replacement id is emitted and both are consumed, otherwise the current
  element is emitted.
\<close>

fun merge :: "int list \<Rightarrow> pair \<Rightarrow> int \<Rightarrow> int list" where
  "merge (a # b # rest) p idx =
     (if a = fst p \<and> b = snd p then idx # merge rest p idx
      else a # merge (b # rest) p idx)"
| "merge ids p idx = ids"

section \<open>\<open>BasicTokenizer\<close>\<close>

definition seed_vocab :: "int \<rightharpoonup> byte list" where
  "seed_vocab = (\<lambda>idx. if 0 \<le> idx \<and> idx < 256 then Some [word_of_int idx] else None)"

text \<open>
  \<open>vocab[idx] = vocab[pair[0]] + vocab[pair[1]]\<close>: either lookup raises
  \<open>KeyError\<close> on a missing key.
\<close>

definition vocab_add :: "(int \<rightharpoonup> byte list) \<Rightarrow> pair \<Rightarrow> int \<Rightarrow> error + (int \<rightharpoonup> byte list)" where
  "vocab_add v p idx =
     (case v (fst p) of
        None \<Rightarrow> Inl (KeyError (fst p))
      | Some l \<Rightarrow>
          (case v (snd p) of
             None \<Rightarrow> Inl (KeyError (snd p))
           | Some r \<Rightarrow> Inr (v(idx \<mapsto> l @ r))))"

subsection \<open>\<open>train\<close>\<close>

text \<open>The body of the loop, at iteration \<open>i\<close>.\<close>

definition train_step :: "nat \<Rightarrow> int list \<times> tokenizer \<Rightarrow> error + (int list \<times> tokenizer)" where
  "train_step i st =
     (case st of (ids, tk) \<Rightarrow>
        let stats = get_stats ids in
        (case py_max snd stats of
           Inl e \<Rightarrow> Inl e
         | Inr best \<Rightarrow>
             let p = fst best;
                 idx = 256 + int i;
                 ids' = merge ids p idx;
                 m' = (merges tk)(p \<mapsto> idx)
             in (case vocab_add (vocab tk) p idx of
                   Inl e \<Rightarrow> Inl e
                 | Inr v' \<Rightarrow> Inr (ids', \<lparr>merges = m', vocab = v'\<rparr>))))"

text \<open>\<open>for i in range(num_merges)\<close>, from iteration \<open>i\<close> with \<open>k\<close> iterations left.\<close>

fun train_loop :: "nat \<Rightarrow> nat \<Rightarrow> int list \<times> tokenizer \<Rightarrow> error + (int list \<times> tokenizer)" where
  "train_loop i 0 st = Inr st"
| "train_loop i (Suc k) st =
     (case train_step i st of
        Inl e \<Rightarrow> Inl e
      | Inr st' \<Rightarrow> train_loop (Suc i) k st')"

definition train :: "int list \<Rightarrow> int \<Rightarrow> error + tokenizer" where
  "train s vocab_size =
     (if \<not> 256 \<le> vocab_size then Inl AssertionError
      else
        (case utf8_encode s of
           Inl e \<Rightarrow> Inl e
         | Inr text_bytes \<Rightarrow>
             (case train_loop 0 (nat (vocab_size - 256))
                     (map uint text_bytes, \<lparr>merges = Map.empty, vocab = seed_vocab\<rparr>) of
                Inl e \<Rightarrow> Inl e
              | Inr st \<Rightarrow> Inr (snd st))))"

subsection \<open>\<open>train_vectorized\<close>\<close>

text \<open>
  \<open>unique(pairs, return_counts=True, axis=0)\<close> gives the distinct rows in ascending
  lexicographic order, each with the number of times it occurs.
\<close>

definition unique_counts :: "pair list \<Rightarrow> pair list \<times> nat list" where
  "unique_counts pairs =
     (let u = sort (remdups pairs) in (u, map (\<lambda>p. count_list pairs p) u))"

text \<open>
  \<open>argmax\<close> gives the index of the first occurrence of the largest value; the empty
  array has none.
\<close>

definition argmax :: "nat list \<Rightarrow> nat option" where
  "argmax counts =
     (case counts of
        [] \<Rightarrow> None
      | c # rest \<Rightarrow> Some (select_first (\<lambda>a b. b < a) (\<lambda>k. counts ! k) 0 [1 ..< length counts]))"

text \<open>
  The mask marks every position where the pair starts. The marked positions are
  overwritten by the new id, and every position right after a marked one is dropped
  (the mask rolled by one).
\<close>

definition mask_merge :: "int list \<Rightarrow> pair list \<Rightarrow> pair \<Rightarrow> int \<Rightarrow> int list" where
  "mask_merge ids pairs p idx =
     (let mask = map (\<lambda>q. q = p) pairs @ [False];
          ids1 = map (\<lambda>(m, x). if m then idx else x) (zip mask ids);
          rolled = last mask # butlast mask
      in map snd (filter (\<lambda>(r, x). \<not> r) (zip rolled ids1)))"

definition vectorized_step :: "nat \<Rightarrow> int list \<times> tokenizer \<Rightarrow> error + (int list \<times> tokenizer)" where
  "vectorized_step i st =
     (case st of (ids, tk) \<Rightarrow>
        let pairs = zip (butlast ids) (tl ids);
            uc = unique_counts pairs
        in (case argmax (snd uc) of
              None \<Rightarrow> Inl ValueError
            | Some pair_index \<Rightarrow>
                let p = fst uc ! pair_index;
                    idx = 256 + int i;
                    ids' = mask_merge ids pairs p idx;
                    m' = (merges tk)(p \<mapsto> idx)
                in (case vocab_add (vocab tk) p idx of
                      Inl e \<Rightarrow> Inl e
                    | Inr v' \<Rightarrow> Inr (ids', \<lparr>merges = m', vocab = v'\<rparr>))))"

fun vectorized_loop :: "nat \<Rightarrow> nat \<Rightarrow> int list \<times> tokenizer \<Rightarrow> error + (int list \<times> tokenizer)" where
  "vectorized_loop i 0 st = Inr st"
| "vectorized_loop i (Suc k) st =
     (case vectorized_step i st of
        Inl e \<Rightarrow> Inl e
      | Inr st' \<Rightarrow> vectorized_loop (Suc i) k st')"

definition train_vectorized :: "int list \<Rightarrow> int \<Rightarrow> error + tokenizer" where
  "train_vectorized s vocab_size =
     (if \<not> 256 \<le> vocab_size then Inl AssertionError
      else
        (case utf8_encode s of
           Inl e \<Rightarrow> Inl e
         | Inr text_bytes \<Rightarrow>
             (case vectorized_loop 0 (nat (vocab_size - 256))
                     (map uint text_bytes, \<lparr>merges = Map.empty, vocab = seed_vocab\<rparr>) of
                Inl e \<Rightarrow> Inl e
              | Inr st \<Rightarrow> Inr (snd st))))"

subsection \<open>\<open>train_gpu\<close>\<close>

text \<open>
  The loop only records the chosen pair in row \<open>i\<close> of \<open>merge_pairs\<close>; the two
  dictionaries are built from that array after the loop.
\<close>

definition gpu_step :: "nat \<Rightarrow> int list \<times> pair list \<Rightarrow> error + (int list \<times> pair list)" where
  "gpu_step i st =
     (case st of (ids, merge_pairs) \<Rightarrow>
        let pairs = zip (butlast ids) (tl ids);
            uc = unique_counts pairs
        in (case argmax (snd uc) of
              None \<Rightarrow> Inl IndexError
            | Some pair_index \<Rightarrow>
                let p = fst uc ! pair_index;
                    ids' = mask_merge ids pairs p (int i + 256)
                in Inr (ids', merge_pairs[i := p])))"

fun gpu_loop :: "nat \<Rightarrow> nat \<Rightarrow> int list \<times> pair list \<Rightarrow> error + (int list \<times> pair list)" where
  "gpu_loop i 0 st = Inr st"
| "gpu_loop i (Suc k) st =
     (case gpu_step i st of
        Inl e \<Rightarrow> Inl e
      | Inr st' \<Rightarrow> gpu_loop (Suc i) k st')"

text \<open>\<open>{tuple(pair.tolist()): j + 256 for j, pair in enumerate(merge_pairs)}\<close>\<close>

definition gpu_merges :: "pair list \<Rightarrow> (pair \<rightharpoonup> int)" where
  "gpu_merges merge_pairs =
     foldl (\<lambda>m (j, p). m(p \<mapsto> int j + 256)) Map.empty (enumerate 0 merge_pairs)"

text \<open>The second loop, over \<open>range(num_merges)\<close>, that fills the vocabulary.\<close>

fun gpu_vocab_loop :: "nat \<Rightarrow> nat \<Rightarrow> pair list \<Rightarrow> (int \<rightharpoonup> byte list) \<Rightarrow> error + (int \<rightharpoonup> byte list)" where
  "gpu_vocab_loop i 0 merge_pairs v = Inr v"
| "gpu_vocab_loop i (Suc k) merge_pairs v =
     (case vocab_add v (merge_pairs ! i) (256 + int i) of
        Inl e \<Rightarrow> Inl e
      | Inr v' \<Rightarrow> gpu_vocab_loop (Suc i) k merge_pairs v')"

definition train_gpu :: "int list \<Rightarrow> int \<Rightarrow> error + tokenizer" where
  "train_gpu s vocab_size =
     (if \<not> 256 \<le> vocab_size then Inl AssertionError
      else
        (case utf8_encode s of
           Inl e \<Rightarrow> Inl e
         | Inr text_bytes \<Rightarrow>
             let num_merges = nat (vocab_size - 256) in
             (case gpu_loop 0 num_merges (map uint text_bytes, replicate num_merges (0, 0)) of
                Inl e \<Rightarrow> Inl e
              | Inr st \<Rightarrow>
                  (case gpu_vocab_loop 0 num_merges (snd st) seed_vocab of
                     Inl e \<Rightarrow> Inl e
                   | Inr v \<Rightarrow> Inr \<lparr>merges = gpu_merges (snd st), vocab = v\<rparr>))))"

subsection \<open>\<open>decode\<close>\<close>

text \<open>\<open>b"".join(self.vocab[idx] for idx in ids)\<close>: the first missing id raises.\<close>

fun join_vocab :: "(int \<rightharpoonup> byte list) \<Rightarrow> int list \<Rightarrow> error + byte list" where
  "join_vocab v [] = Inr []"
| "join_vocab v (idx # ids) =
     (case v idx of
        None \<Rightarrow> Inl (KeyError idx)
      | Some bs \<Rightarrow>
          (case join_vocab v ids of
             Inl e \<Rightarrow> Inl e
           | Inr rest \<Rightarrow> Inr (bs @ rest)))"

definition decode :: "tokenizer \<Rightarrow> int list \<Rightarrow> error + int list" where
  "decode tk ids =
     (case join_vocab (vocab tk) ids of
        Inl e \<Rightarrow> Inl e
      | Inr text_bytes \<Rightarrow> Inr (utf8_decode text_bytes))"

subsection \<open>\<open>encode\<close>\<close>

text \<open>
  The key of \<open>min\<close> is \<open>self.merges.get(p, float("inf"))\<close>: a pair that is not in the
  table ranks behind every pair that is. \<open>None\<close> stands for the infinite key.
\<close>

fun rank_less :: "int option \<Rightarrow> int option \<Rightarrow> bool" where
  "rank_less (Some a) (Some b) = (a < b)"
| "rank_less (Some a) None = True"
| "rank_less None r = False"

text \<open>
  The \<open>while\<close> loop. A run that does not return has the value \<open>None\<close>; a run that
  returns gives \<open>Some\<close> of the list of ids, or of the exception raised.
\<close>

partial_function (option) encode_loop :: "(pair \<rightharpoonup> int) \<Rightarrow> int list \<Rightarrow> (error + int list) option" where
  "encode_loop m ids =
     (if 2 \<le> length ids then
        (case py_min rank_less m (map fst (get_stats ids)) of
           Inl e \<Rightarrow> Some (Inl e)
         | Inr p \<Rightarrow>
             (case m p of
                None \<Rightarrow> Some (Inr ids)
              | Some idx \<Rightarrow> encode_loop m (merge ids p idx)))
      else Some (Inr ids))"

definition encode :: "tokenizer \<Rightarrow> int list \<Rightarrow> (error + int list) option" where
  "encode tk s =
     (case utf8_encode s of
        Inl e \<Rightarrow> Some (Inl e)
      | Inr text_bytes \<Rightarrow> encode_loop (merges tk) (map uint text_bytes))"

section \<open>Invariants\<close>

text \<open>
  What holds of the two dictionaries after \<open>n\<close> merges: the vocabulary has the keys
  \<open>0, \<dots>, 255 + n\<close>, a key below 256 stands for its own byte, and every entry of the
  merge table names an id from 256 on whose bytes are those of the left id followed by
  those of the right id.
\<close>

definition tokenizer_ok :: "nat \<Rightarrow> tokenizer \<Rightarrow> bool" where
  "tokenizer_ok n tk =
     (dom (vocab tk) = {0 ..< 256 + int n}
      \<and> (\<forall>b. 0 \<le> b \<and> b < 256 \<longrightarrow> vocab tk b = Some [word_of_int b])
      \<and> (\<forall>p idx. merges tk p = Some idx \<longrightarrow>
            256 \<le> idx \<and> idx < 256 + int n
            \<and> (\<exists>l r. vocab tk (fst p) = Some l \<and> vocab tk (snd p) = Some r
                  \<and> vocab tk idx = Some (l @ r))))"

text \<open>
  What holds of a training function \<open>run\<close> wherever it returns a tokenizer: the
  tokenizer is as above, every run with a smaller \<open>vocab_size\<close> returns one too, whose
  vocabulary is part of the larger one, and the last id was minted for a pair that is
  in the merge table.
\<close>

definition growth_facts :: "(int list \<Rightarrow> int \<Rightarrow> error + tokenizer) \<Rightarrow> bool" where
  "growth_facts run =
     (\<forall>s vs tk. run s vs = Inr tk \<longrightarrow>
        256 \<le> vs \<and> tokenizer_ok (nat (vs - 256)) tk
        \<and> (\<forall>vs'. 256 \<le> vs' \<and> vs' \<le> vs \<longrightarrow>
              (\<exists>tk'. run s vs' = Inr tk' \<and> vocab tk' \<subseteq>\<^sub>m vocab tk))
        \<and> (256 < vs \<longrightarrow>
              (\<exists>p l r. merges tk p = Some (vs - 1) \<and> vocab tk (fst p) = Some l
                 \<and> vocab tk (snd p) = Some r \<and> vocab tk (vs - 1) = Some (l @ r))))"

text \<open>
  What the mask code of \<open>mask_merge\<close> leaves of a sequence when the position before
  it was marked or not: the first position is dropped if \<open>marked\<close>, a position where
  the pair starts holds the new id.
\<close>

definition mask_from :: "bool \<Rightarrow> int list \<Rightarrow> pair \<Rightarrow> int \<Rightarrow> int list" where
  "mask_from marked ids p idx =
     map snd (filter (\<lambda>(r, x). \<not> r)
       (zip (marked # map (\<lambda>q. q = p) (zip ids (tl ids)))
            (map (\<lambda>(m, x). if m then idx else x)
               (zip (map (\<lambda>q. q = p) (zip ids (tl ids)) @ [False]) ids))))"

section \<open>Facts about the helpers\<close>

lemma merge_length_le: "length (merge ids p idx) \<le> length ids"
  by (induction ids p idx rule: merge.induct) auto

lemma merge_length_less:
  "p \<in> set (zip ids (tl ids)) \<Longrightarrow> length (merge ids p idx) < length ids"
proof (induction ids p idx rule: merge.induct)
  case (1 a b rest p idx)
  show ?case
  proof (cases "a = fst p \<and> b = snd p")
    case True
    have "length (merge rest p idx) \<le> length rest" by (rule merge_length_le)
    with True show ?thesis by simp
  next
    case False
    with "1.prems" have "p \<in> set (zip (b # rest) (tl (b # rest)))"
      by (cases p) auto
    with False "1.IH"(2) have "length (merge (b # rest) p idx) < length (b # rest)" by simp
    moreover from False have "merge (a # b # rest) p idx = a # merge (b # rest) p idx" by auto
    ultimately show ?thesis by simp
  qed
qed simp_all

lemma merge_nonempty: "ids \<noteq> [] \<Longrightarrow> merge ids p idx \<noteq> []"
  by (induction ids p idx rule: merge.induct) auto

lemma merge_set: "set (merge ids p idx) \<subseteq> insert idx (set ids)"
  by (induction ids p idx rule: merge.induct) auto

lemma bump_keys: "fst ` set (bump p counts) = insert p (fst ` set counts)"
  by (induction p counts rule: bump.induct) (simp_all add: insert_commute)

lemma foldl_bump_keys:
  "fst ` set (foldl (\<lambda>counts p. bump p counts) acc ps) = fst ` set acc \<union> set ps"
  by (induction ps arbitrary: acc) (simp_all add: bump_keys)

lemma get_stats_keys: "set (map fst (get_stats ids)) = set (zip ids (tl ids))"
  by (simp add: get_stats_def foldl_bump_keys)

lemma select_first_mem: "select_first better key best xs \<in> set (best # xs)"
proof (induction xs arbitrary: best)
  case Nil
  show ?case by simp
next
  case (Cons x xs)
  have "select_first better key (if better (key x) (key best) then x else best) xs
          \<in> set ((if better (key x) (key best) then x else best) # xs)"
    by (rule Cons.IH)
  then show ?case by (simp split: if_splits) blast+
qed


lemma py_min_mem: "py_min less_key key xs = Inr x \<Longrightarrow> x \<in> set xs"
  using select_first_mem [of less_key key]
  by (auto simp: py_min_def split: list.splits)

lemma py_min_nonempty: "xs \<noteq> [] \<Longrightarrow> \<exists>x. py_min less_key key xs = Inr x"
  by (cases xs) (auto simp: py_min_def)

lemma zip_tl_nonempty: "2 \<le> length ids \<Longrightarrow> zip ids (tl ids) \<noteq> []"
  by (cases ids; cases "tl ids") auto


lemma get_stats_nonempty: "2 \<le> length ids \<Longrightarrow> map fst (get_stats ids) \<noteq> []"
proof
  assume a: "2 \<le> length ids" and e: "map fst (get_stats ids) = []"
  from a have "zip ids (tl ids) \<noteq> []" by (rule zip_tl_nonempty)
  moreover from e have "set (zip ids (tl ids)) = {}"
    using get_stats_keys [of ids] by simp
  ultimately show False by simp
qed

lemma encode_loop_short: "\<not> 2 \<le> length ids \<Longrightarrow> encode_loop m ids = Some (Inr ids)"
  by (subst encode_loop.simps) simp

lemma encode_loop_stop:
  "2 \<le> length ids \<Longrightarrow> py_min rank_less m (map fst (get_stats ids)) = Inr p \<Longrightarrow> m p = None
   \<Longrightarrow> encode_loop m ids = Some (Inr ids)"
  by (subst encode_loop.simps) simp

lemma encode_loop_go:
  "2 \<le> length ids \<Longrightarrow> py_min rank_less m (map fst (get_stats ids)) = Inr p \<Longrightarrow> m p = Some idx
   \<Longrightarrow> encode_loop m ids = encode_loop m (merge ids p idx)"
  by (subst encode_loop.simps) simp


lemma encode_loop_returns: "\<exists>out. encode_loop m ids = Some (Inr out) \<and> length out \<le> length ids"
proof (induction "length ids" arbitrary: ids rule: less_induct)
  case less
  show ?case
  proof (cases "2 \<le> length ids")
    case False
    then show ?thesis by (simp add: encode_loop_short)
  next
    case True
    then obtain p where p: "py_min rank_less m (map fst (get_stats ids)) = Inr p"
      using py_min_nonempty [OF get_stats_nonempty] by blast
    then have "p \<in> set (map fst (get_stats ids))" by (rule py_min_mem)
    then have mem: "p \<in> set (zip ids (tl ids))" by (simp only: get_stats_keys)
    show ?thesis
    proof (cases "m p")
      case None
      with True p show ?thesis by (simp add: encode_loop_stop)
    next
      case (Some idx)
      from mem have lt: "length (merge ids p idx) < length ids" by (rule merge_length_less)
      from less [OF lt] obtain out where
        out: "encode_loop m (merge ids p idx) = Some (Inr out)" "length out \<le> length (merge ids p idx)"
        by blast
      from True p Some have "encode_loop m ids = encode_loop m (merge ids p idx)"
        by (rule encode_loop_go)
      with out lt show ?thesis by simp
    qed
  qed
qed

section \<open>The encoder on short inputs and its termination\<close>

text \<open>
  C10. A text whose UTF-8 encoding has fewer than two bytes is encoded as the list of
  its byte values, whatever the merge table is: the loop body is never entered. The
  empty string gives the empty list.
\<close>

theorem encode_short_text:
  "(utf8_encode s = Inr bs \<and> length bs < 2 \<longrightarrow> encode tk s = Some (Inr (map uint bs)))
   \<and> encode tk [] = Some (Inr [])"
  by (simp add: encode_def encode_loop_short utf8_encode_def)

theorem encode_short_text_witness:
  "utf8_encode [0x41] = Inr [0x41] \<and> length [0x41 :: byte] < 2
   \<and> encode \<lparr>merges = [(0x41, 0x41) \<mapsto> 256], vocab = seed_vocab\<rparr> [0x41] = Some (Inr [0x41])"
  using encode_short_text [of "[0x41]" "[0x41]" "\<lparr>merges = [(0x41, 0x41) \<mapsto> 256], vocab = seed_vocab\<rparr>"]
  by (simp add: utf8_encode_def utf8_encode_cp_def)

text \<open>
  C9. The loop of \<open>encode\<close> returns on every table and every sequence, and so does
  \<open>encode\<close> on every text. Each pass that applies a merge continues on a strictly
  shorter sequence, which still has at least one token.
\<close>

theorem encode_terminates:
  "(\<exists>r. encode tk s = Some r)
   \<and> (\<exists>out. encode_loop m ids = Some (Inr out) \<and> length out \<le> length ids)
   \<and> (2 \<le> length ids \<and> py_min rank_less m (map fst (get_stats ids)) = Inr p \<and> m p = Some idx
        \<longrightarrow> encode_loop m ids = encode_loop m (merge ids p idx)
          \<and> length (merge ids p idx) < length ids
          \<and> 1 \<le> length (merge ids p idx))"
proof (intro conjI impI)
  show "\<exists>r. encode tk s = Some r"
    using encode_loop_returns [of "merges tk"]
    by (cases "utf8_encode s") (auto simp: encode_def)
  show "\<exists>out. encode_loop m ids = Some (Inr out) \<and> length out \<le> length ids"
    by (rule encode_loop_returns)
next
  assume a: "2 \<le> length ids \<and> py_min rank_less m (map fst (get_stats ids)) = Inr p \<and> m p = Some idx"
  then show "encode_loop m ids = encode_loop m (merge ids p idx)"
    by (simp add: encode_loop_go)
  from a have "py_min rank_less m (map fst (get_stats ids)) = Inr p" by simp
  then have "p \<in> set (map fst (get_stats ids))" by (rule py_min_mem)
  then have "p \<in> set (zip ids (tl ids))" by (simp only: get_stats_keys)
  then show "length (merge ids p idx) < length ids" by (rule merge_length_less)
  from a have "ids \<noteq> []" by auto
  then have "merge ids p idx \<noteq> []" by (rule merge_nonempty)
  then show "1 \<le> length (merge ids p idx)" by (cases "merge ids p idx") simp_all
qed

theorem encode_terminates_witness:
  "2 \<le> length [97, 97, 97 :: int]
   \<and> py_min rank_less [(97, 97) \<mapsto> 256] (map fst (get_stats [97, 97, 97])) = Inr (97, 97)
   \<and> [(97, 97) \<mapsto> (256 :: int)] (97, 97) = Some 256
   \<and> merge [97, 97, 97] (97, 97) 256 = [256, 97]
   \<and> encode_loop [(97, 97) \<mapsto> 256] [97, 97, 97] = encode_loop [(97, 97) \<mapsto> 256] [256, 97]
   \<and> (\<exists>r. encode \<lparr>merges = [(97, 97) \<mapsto> 256], vocab = seed_vocab\<rparr> [97, 97, 97] = Some r)"
  using encode_terminates [of "\<lparr>merges = [(97, 97) \<mapsto> 256], vocab = seed_vocab\<rparr>" "[97, 97, 97]"
      "[(97, 97) \<mapsto> 256]" "[97, 97, 97]" "(97, 97)" 256]
  by (simp add: py_min_def get_stats_def)

lemma select_first_split:
  assumes tr: "\<And>a b c. better a b \<Longrightarrow> better b c \<Longrightarrow> better a c"
    and nt: "\<And>a b c. \<not> better a b \<Longrightarrow> \<not> better b c \<Longrightarrow> \<not> better a c"
  shows "\<exists>ys zs. best # xs = ys @ select_first better key best xs # zs
           \<and> (\<forall>y\<in>set ys. better (key (select_first better key best xs)) (key y))
           \<and> (\<forall>z\<in>set zs. \<not> better (key z) (key (select_first better key best xs)))"
proof (induction xs arbitrary: best)
  case Nil
  show ?case by (intro exI [of _ "[]"]) simp
next
  case (Cons x xs)
  define b where "b = (if better (key x) (key best) then x else best)"
  define r where "r = select_first better key b xs"
  from Cons.IH [of b] obtain ys zs where
    sp: "b # xs = ys @ r # zs"
    and before: "\<forall>y\<in>set ys. better (key r) (key y)"
    and after: "\<forall>z\<in>set zs. \<not> better (key z) (key r)"
    unfolding r_def by blast
  have r: "select_first better key best (x # xs) = r" by (simp add: r_def b_def)
  show ?case
  proof (cases "better (key x) (key best)")
    case True
    then have b: "b = x" by (simp add: b_def)
    have rb: "better (key r) (key best)"
    proof (cases ys)
      case Nil
      with sp b have "r = x" by simp
      with True show ?thesis by simp
    next
      case (Cons y ys')
      with sp b have "x \<in> set ys" by simp
      with before have "better (key r) (key x)" by blast
      then show ?thesis using True by (rule tr)
    qed
    from sp b have "best # x # xs = (best # ys) @ r # zs" by simp
    moreover from rb before have "\<forall>y\<in>set (best # ys). better (key r) (key y)" by simp
    ultimately show ?thesis unfolding r using after by blast
  next
    case False
    then have b: "b = best" by (simp add: b_def)
    show ?thesis
    proof (cases ys)
      case Nil
      with sp b have rb: "r = best" and zs: "zs = xs" by simp_all
      have "best # x # xs = [] @ r # (x # zs)" using rb zs by simp
      moreover have "\<forall>z\<in>set (x # zs). \<not> better (key z) (key r)"
        using after False rb by simp
      moreover have "\<forall>y\<in>set []. better (key r) (key y)" by simp
      ultimately show ?thesis unfolding r by blast
    next
      case (Cons y ys')
      with sp b have y: "y = best" and rest: "xs = ys' @ r # zs" by simp_all
      from before Cons y have rb: "better (key r) (key best)" by simp
      have rx: "better (key r) (key x)"
      proof (rule ccontr)
        assume "\<not> better (key r) (key x)"
        then have "\<not> better (key r) (key best)" using False by (rule nt)
        with rb show False by simp
      qed
      have "best # x # xs = (best # x # ys') @ r # zs" using rest by simp
      moreover have "\<forall>y\<in>set (best # x # ys'). better (key r) (key y)"
        using before Cons rb rx by simp
      ultimately show ?thesis unfolding r using after by blast
    qed
  qed
qed

lemma rank_less_trans: "rank_less a b \<Longrightarrow> rank_less b c \<Longrightarrow> rank_less a c"
  by (cases a; cases b; cases c) auto

lemma rank_less_negtrans: "\<not> rank_less a b \<Longrightarrow> \<not> rank_less b c \<Longrightarrow> \<not> rank_less a c"
  by (cases a; cases b; cases c) auto

lemma py_min_rank:
  assumes "py_min rank_less key xs = Inr x"
  shows "\<exists>ys zs. xs = ys @ x # zs
           \<and> (\<forall>y\<in>set ys. rank_less (key x) (key y))
           \<and> (\<forall>z\<in>set zs. \<not> rank_less (key z) (key x))"
proof (cases xs)
  case Nil
  with assms show ?thesis by (simp add: py_min_def)
next
  case (Cons b rest)
  with assms have x: "x = select_first rank_less key b rest" by (simp add: py_min_def)
  show ?thesis unfolding Cons x
    by (rule select_first_split [OF rank_less_trans rank_less_negtrans])
qed

lemma py_max_first:
  fixes key :: "'a \<Rightarrow> 'k :: linorder"
  assumes "py_max key xs = Inr x"
  shows "\<exists>ys zs. xs = ys @ x # zs
           \<and> (\<forall>y\<in>set ys. key y < key x)
           \<and> (\<forall>z\<in>set zs. key z \<le> key x)"
proof (cases xs)
  case Nil
  with assms show ?thesis by (simp add: py_max_def)
next
  case (Cons b rest)
  with assms have x: "x = select_first (\<lambda>a b. b < a) key b rest" by (simp add: py_max_def)
  have "\<exists>ys zs. b # rest = ys @ select_first (\<lambda>a b. b < a) key b rest # zs
           \<and> (\<forall>y\<in>set ys. key y < key (select_first (\<lambda>a b. b < a) key b rest))
           \<and> (\<forall>z\<in>set zs. \<not> key (select_first (\<lambda>a b. b < a) key b rest) < key z)"
    by (rule select_first_split) auto
  then show ?thesis unfolding Cons x by (simp add: not_less)
qed

section \<open>The pair that \<open>encode\<close> merges\<close>

text \<open>
  One pass of the loop, on a sequence of at least two tokens: it stops where no adjacent
  pair is a key of the table, and otherwise goes on with the sequence merged for an
  adjacent pair whose id is the smallest among the ids of the adjacent pairs that are
  keys.
\<close>

lemma encode_loop_pass:
  "(2 \<le> length ids \<and> (\<forall>q\<in>set (zip ids (tl ids)). m q = None)
      \<longrightarrow> encode_loop m ids = Some (Inr ids))
   \<and> (2 \<le> length ids \<and> (\<exists>q\<in>set (zip ids (tl ids)). m q \<noteq> None)
      \<longrightarrow> (\<exists>p idx. p \<in> set (zip ids (tl ids)) \<and> m p = Some idx
            \<and> (\<forall>q\<in>set (zip ids (tl ids)). \<forall>j. m q = Some j \<longrightarrow> idx \<le> j)
            \<and> py_min rank_less m (map fst (get_stats ids)) = Inr p
            \<and> encode_loop m ids = encode_loop m (merge ids p idx)))
   \<and> (length ids < 2 \<longrightarrow> encode_loop m ids = Some (Inr ids))"
proof (intro conjI impI)
  assume a: "2 \<le> length ids \<and> (\<forall>q\<in>set (zip ids (tl ids)). m q = None)"
  then obtain p where p: "py_min rank_less m (map fst (get_stats ids)) = Inr p"
    using py_min_nonempty [OF get_stats_nonempty] by blast
  then have "p \<in> set (map fst (get_stats ids))" by (rule py_min_mem)
  then have "p \<in> set (zip ids (tl ids))" by (simp only: get_stats_keys)
  with a have "m p = None" by blast
  with a p show "encode_loop m ids = Some (Inr ids)" by (simp add: encode_loop_stop)
next
  assume a: "2 \<le> length ids \<and> (\<exists>q\<in>set (zip ids (tl ids)). m q \<noteq> None)"
  then obtain p where p: "py_min rank_less m (map fst (get_stats ids)) = Inr p"
    using py_min_nonempty [OF get_stats_nonempty] by blast
  then have "p \<in> set (map fst (get_stats ids))" by (rule py_min_mem)
  then have mem: "p \<in> set (zip ids (tl ids))" by (simp only: get_stats_keys)
  from py_min_rank [OF p] obtain ys zs where
    sp: "map fst (get_stats ids) = ys @ p # zs"
    and before: "\<forall>y\<in>set ys. rank_less (m p) (m y)"
    and after: "\<forall>z\<in>set zs. \<not> rank_less (m z) (m p)"
    by blast
  have best: "\<not> rank_less (m q) (m p)" if "q \<in> set (zip ids (tl ids))" for q
  proof -
    from that have "q \<in> set (map fst (get_stats ids))" by (simp only: get_stats_keys)
    then have "q \<in> set ys \<or> q = p \<or> q \<in> set zs" unfolding sp by auto
    then show ?thesis
    proof (elim disjE)
      assume "q \<in> set ys"
      with before have "rank_less (m p) (m q)" by blast
      then show ?thesis by (cases "m p"; cases "m q") auto
    next
      assume "q = p"
      then show ?thesis by (cases "m p") auto
    next
      assume "q \<in> set zs"
      with after show ?thesis by blast
    qed
  qed
  from a obtain q0 j0 where q0: "q0 \<in> set (zip ids (tl ids))" "m q0 = Some j0" by auto
  from best [OF q0(1)] q0(2) obtain idx where idx: "m p = Some idx"
    by (cases "m p") auto
  have low: "\<forall>q\<in>set (zip ids (tl ids)). \<forall>j. m q = Some j \<longrightarrow> idx \<le> j"
  proof (intro ballI allI impI)
    fix q j assume "q \<in> set (zip ids (tl ids))" "m q = Some j"
    with best [of q] idx show "idx \<le> j" by simp
  qed
  from a p idx have "encode_loop m ids = encode_loop m (merge ids p idx)"
    by (simp add: encode_loop_go)
  with mem idx low p
  show "\<exists>p idx. p \<in> set (zip ids (tl ids)) \<and> m p = Some idx
            \<and> (\<forall>q\<in>set (zip ids (tl ids)). \<forall>j. m q = Some j \<longrightarrow> idx \<le> j)
            \<and> py_min rank_less m (map fst (get_stats ids)) = Inr p
            \<and> encode_loop m ids = encode_loop m (merge ids p idx)"
    by blast
next
  assume "length ids < 2"
  then show "encode_loop m ids = Some (Inr ids)" by (simp add: encode_loop_short)
qed

section \<open>Training on a sequence without pairs\<close>

lemma get_stats_short: "length ids < 2 \<Longrightarrow> get_stats ids = []"
  by (cases ids; cases "tl ids") (auto simp: get_stats_def)

lemma get_stats_empty_iff: "get_stats ids = [] \<longleftrightarrow> length ids < 2"
proof
  assume "get_stats ids = []"
  then have "map fst (get_stats ids) = []" by simp
  then show "length ids < 2" using get_stats_nonempty [of ids] by fastforce
qed (rule get_stats_short)

lemma train_step_no_pairs: "get_stats ids = [] \<Longrightarrow> train_step i (ids, tk) = Inl ValueError"
  by (simp add: train_step_def py_max_def)

lemma zip_butlast_Cons: "zip (butlast (a # rest)) rest = zip (a # rest) rest"
  by (induction rest arbitrary: a) auto

lemma zip_butlast_tl: "zip (butlast ids) (tl ids) = zip ids (tl ids)"
  by (cases ids) (simp_all add: zip_butlast_Cons del: butlast.simps)

lemma unique_counts_Nil: "unique_counts [] = ([], [])"
  by (simp add: unique_counts_def)

lemma vectorized_step_no_pairs:
  "length ids < 2 \<Longrightarrow> vectorized_step i (ids, tk) = Inl ValueError"
  by (cases ids; cases "tl ids") (auto simp: vectorized_step_def unique_counts_Nil argmax_def)

lemma train_loop_add:
  "train_loop i (j + k) st =
     (case train_loop i j st of Inl e \<Rightarrow> Inl e | Inr st' \<Rightarrow> train_loop (i + j) k st')"
  by (induction j arbitrary: i st) (auto split: sum.splits)

lemma vectorized_loop_add:
  "vectorized_loop i (j + k) st =
     (case vectorized_loop i j st of Inl e \<Rightarrow> Inl e | Inr st' \<Rightarrow> vectorized_loop (i + j) k st')"
  by (induction j arbitrary: i st) (auto split: sum.splits)

lemma train_256:
  "utf8_encode s = Inr bs \<Longrightarrow> train s 256 = Inr \<lparr>merges = Map.empty, vocab = seed_vocab\<rparr>"
  by (simp add: train_def)

lemma nat_minus_256_Suc: "256 < (n :: int) \<Longrightarrow> nat (n - 256) = Suc (nat (n - 257))"
  by simp

lemma train_short_raises:
  "256 < vocab_size \<Longrightarrow> utf8_encode s = Inr bs \<Longrightarrow> length bs < 2
   \<Longrightarrow> train s vocab_size = Inl ValueError"
  by (simp add: train_def nat_minus_256_Suc train_step_no_pairs get_stats_short)

lemma train_vectorized_short_raises:
  "256 < vocab_size \<Longrightarrow> utf8_encode s = Inr bs \<Longrightarrow> length bs < 2
   \<Longrightarrow> train_vectorized s vocab_size = Inl ValueError"
  by (simp add: train_vectorized_def nat_minus_256_Suc vectorized_step_no_pairs)

lemma utf8_encode_A: "utf8_encode [0x41] = Inr [0x41]"
  by (simp add: utf8_encode_def utf8_encode_cp_def)

text \<open>
  C5, as the claim states it, at the single byte 0x41 and \<open>vocab_size = 300\<close>: the run
  does not return a tokenizer, it raises.
\<close>

theorem train_single_byte_raises:
  "train [0x41] 300 = Inl ValueError \<and> train_vectorized [0x41] 300 = Inl ValueError"
  using train_short_raises [OF _ utf8_encode_A, of 300]
    train_vectorized_short_raises [OF _ utf8_encode_A, of 300]
  by simp

text \<open>
  C5, amended. With \<open>vocab_size = 256\<close> no iteration runs: \<open>train\<close> returns the empty
  merge table and the seed vocabulary of 256 entries, whatever the text. With a larger
  \<open>vocab_size\<close>, a text of fewer than two bytes makes \<open>train\<close> and
  \<open>train_vectorized\<close> raise \<open>ValueError\<close>. More generally, when the pair statistics
  are empty after \<open>j\<close> iterations and a further iteration is due, the loop raises
  \<open>ValueError\<close>: no partial table is returned.
\<close>

theorem train_without_pairs:
  "(utf8_encode s = Inr bs \<longrightarrow> train s 256 = Inr \<lparr>merges = Map.empty, vocab = seed_vocab\<rparr>)
   \<and> (256 < vocab_size \<and> utf8_encode s = Inr bs \<and> length bs < 2
        \<longrightarrow> train s vocab_size = Inl ValueError \<and> train_vectorized s vocab_size = Inl ValueError)
   \<and> (train_loop i j st = Inr (ids, tk) \<and> get_stats ids = []
        \<longrightarrow> train_loop i (j + Suc k) st = Inl ValueError)
   \<and> (vectorized_loop i j st = Inr (ids, tk) \<and> get_stats ids = []
        \<longrightarrow> vectorized_loop i (j + Suc k) st = Inl ValueError)"
proof (intro conjI impI)
  assume "utf8_encode s = Inr bs"
  then show "train s 256 = Inr \<lparr>merges = Map.empty, vocab = seed_vocab\<rparr>" by (rule train_256)
next
  assume a: "256 < vocab_size \<and> utf8_encode s = Inr bs \<and> length bs < 2"
  then show "train s vocab_size = Inl ValueError" by (simp add: train_short_raises)
  from a show "train_vectorized s vocab_size = Inl ValueError"
    by (simp add: train_vectorized_short_raises)
next
  assume a: "train_loop i j st = Inr (ids, tk) \<and> get_stats ids = []"
  have "train_loop i (j + Suc k) st =
          (case train_loop i j st of Inl e \<Rightarrow> Inl e | Inr st' \<Rightarrow> train_loop (i + j) (Suc k) st')"
    by (rule train_loop_add)
  also have "\<dots> = train_loop (i + j) (Suc k) (ids, tk)" using a by simp
  also have "\<dots> = Inl ValueError" using a by (simp add: train_step_no_pairs)
  finally show "train_loop i (j + Suc k) st = Inl ValueError" .
next
  assume a: "vectorized_loop i j st = Inr (ids, tk) \<and> get_stats ids = []"
  have "vectorized_loop i (j + Suc k) st =
          (case vectorized_loop i j st of Inl e \<Rightarrow> Inl e
           | Inr st' \<Rightarrow> vectorized_loop (i + j) (Suc k) st')"
    by (rule vectorized_loop_add)
  also have "\<dots> = vectorized_loop (i + j) (Suc k) (ids, tk)" using a by simp
  also have "\<dots> = Inl ValueError"
    using a by (simp add: vectorized_step_no_pairs get_stats_empty_iff)
  finally show "vectorized_loop i (j + Suc k) st = Inl ValueError" .
qed


theorem train_without_pairs_witness:
  "utf8_encode [0x41] = Inr [0x41]
   \<and> train [0x41] 256 = Inr \<lparr>merges = Map.empty, vocab = seed_vocab\<rparr>
   \<and> (256 :: int) < 257 \<and> length [0x41 :: byte] < 2
   \<and> train [0x41] 257 = Inl ValueError \<and> train_vectorized [0x41] 257 = Inl ValueError
   \<and> train_loop 0 0 ([0x41], \<lparr>merges = Map.empty, vocab = seed_vocab\<rparr>)
       = Inr ([0x41], \<lparr>merges = Map.empty, vocab = seed_vocab\<rparr>)
   \<and> get_stats [0x41] = []
   \<and> train_loop 0 (0 + Suc 5) ([0x41], \<lparr>merges = Map.empty, vocab = seed_vocab\<rparr>) = Inl ValueError
   \<and> vectorized_loop 0 0 ([0x41], \<lparr>merges = Map.empty, vocab = seed_vocab\<rparr>)
       = Inr ([0x41], \<lparr>merges = Map.empty, vocab = seed_vocab\<rparr>)
   \<and> vectorized_loop 0 (0 + Suc 5) ([0x41], \<lparr>merges = Map.empty, vocab = seed_vocab\<rparr>) = Inl ValueError"
proof -
  have e: "utf8_encode [0x41] = Inr [0x41]" by (rule utf8_encode_A)
  have g: "get_stats [0x41] = []" by (simp add: get_stats_def)
  have t: "train_loop 0 0 ([0x41], \<lparr>merges = Map.empty, vocab = seed_vocab\<rparr>)
       = Inr ([0x41], \<lparr>merges = Map.empty, vocab = seed_vocab\<rparr>)" by simp
  have v: "vectorized_loop 0 0 ([0x41], \<lparr>merges = Map.empty, vocab = seed_vocab\<rparr>)
       = Inr ([0x41], \<lparr>merges = Map.empty, vocab = seed_vocab\<rparr>)" by simp
  have l: "length [0x41 :: byte] < 2" "(256 :: int) < 257" by simp_all
  note th = train_without_pairs [of "[0x41]" "[0x41]" 257 0 0
      "([0x41], \<lparr>merges = Map.empty, vocab = seed_vocab\<rparr>)" "[0x41]"
      "\<lparr>merges = Map.empty, vocab = seed_vocab\<rparr>" 5]
  from th e l g t v show ?thesis by blast
qed

section \<open>The pair that a training iteration selects\<close>

lemma bump_keys_list:
  "map fst (bump p counts) = (if p \<in> fst ` set counts then map fst counts else map fst counts @ [p])"
  by (induction p counts rule: bump.induct) auto

lemma bump_map_of:
  "map_of (bump p counts) =
     (map_of counts)(p \<mapsto> (case map_of counts p of None \<Rightarrow> 1 | Some n \<Rightarrow> Suc n))"
  by (induction p counts rule: bump.induct) (auto simp: fun_eq_iff)

lemma foldl_bump_order:
  "map fst (foldl (\<lambda>counts p. bump p counts) [] ps) = rev (remdups (rev ps))"
proof (induction ps rule: rev_induct)
  case Nil
  show ?case by simp
next
  case (snoc p ps)
  have "fst ` set (foldl (\<lambda>counts p. bump p counts) [] ps) = set ps"
    using foldl_bump_keys [of "[]" ps] by simp
  with snoc show ?case by (simp add: bump_keys_list)
qed

lemma foldl_bump_count:
  "map_of (foldl (\<lambda>counts p. bump p counts) [] ps) q =
     (if q \<in> set ps then Some (count_list ps q) else None)"
proof (induction ps rule: rev_induct)
  case Nil
  show ?case by simp
next
  case (snoc p ps)
  then show ?case by (auto simp: bump_map_of)
qed

lemma get_stats_order: "map fst (get_stats ids) = rev (remdups (rev (zip ids (tl ids))))"
  by (simp add: get_stats_def foldl_bump_order)

lemma get_stats_distinct: "distinct (map fst (get_stats ids))"
  by (simp add: get_stats_order)

lemma get_stats_count:
  "(q, c) \<in> set (get_stats ids) \<Longrightarrow> c = count_list (zip ids (tl ids)) q"
proof -
  assume "(q, c) \<in> set (get_stats ids)"
  then have "map_of (get_stats ids) q = Some c"
    using get_stats_distinct by simp
  then show ?thesis
    by (simp add: get_stats_def foldl_bump_count split: if_splits)
qed

lemma foldl_bump_prefix:
  "\<exists>rest. map fst (foldl (\<lambda>counts p. bump p counts) acc ps) = map fst acc @ rest"
proof (induction ps arbitrary: acc)
  case Nil
  show ?case by simp
next
  case (Cons p ps)
  from Cons [of "bump p acc"] obtain rest where
    "map fst (foldl (\<lambda>counts p. bump p counts) (bump p acc) ps) = map fst (bump p acc) @ rest"
    by blast
  then show ?case by (auto simp: bump_keys_list)
qed

lemma get_stats_first_occurrence:
  assumes "zip ids (tl ids) = us @ p # vs" and "p \<notin> set us"
  shows "\<exists>rest. map fst (get_stats ids) = rev (remdups (rev us)) @ p # rest"
proof -
  define acc where "acc = bump p (foldl (\<lambda>counts p. bump p counts) [] us)"
  have "fst ` set (foldl (\<lambda>counts p. bump p counts) [] us) = set us"
    using foldl_bump_keys [of "[]" us] by simp
  with assms(2) have "map fst acc = rev (remdups (rev us)) @ [p]"
    by (simp add: acc_def bump_keys_list foldl_bump_order)
  moreover obtain rest where
    "map fst (foldl (\<lambda>counts p. bump p counts) acc vs) = map fst acc @ rest"
    using foldl_bump_prefix by blast
  moreover have "get_stats ids = foldl (\<lambda>counts p. bump p counts) acc vs"
    by (simp add: get_stats_def assms(1) acc_def)
  ultimately show ?thesis by simp
qed

lemma upt_split_at:
  assumes "[0 ..< n] = ys @ k # zs"
  shows "ys = [0 ..< k] \<and> zs = [Suc k ..< n] \<and> k < n"
proof -
  have len: "length ys < n"
    using arg_cong [OF assms, of length] by simp
  have "[0 ..< n] ! length ys = k" unfolding assms by simp
  with len have k: "length ys = k" by simp
  have "ys = take k [0 ..< n]" unfolding assms using k by simp
  moreover have "zs = drop (Suc k) [0 ..< n]" unfolding assms using k by simp
  ultimately show ?thesis using len k by (simp add: take_upt)
qed

lemma argmax_first:
  assumes "argmax counts = Some k"
  shows "k < length counts \<and> (\<forall>j<length counts. counts ! j \<le> counts ! k)
         \<and> (\<forall>j<k. counts ! j < counts ! k)"
proof (cases counts)
  case Nil
  with assms show ?thesis by (simp add: argmax_def)
next
  case (Cons c rest)
  define n where "n = length counts"
  from Cons have n: "0 < n" by (simp add: n_def)
  from assms Cons have k: "k = select_first (\<lambda>a b. b < a) (\<lambda>k. counts ! k) 0 [1 ..< n]"
    by (simp add: argmax_def n_def)
  have "\<exists>ys zs. 0 # [1 ..< n] = ys @ select_first (\<lambda>a b. b < a) (\<lambda>k. counts ! k) 0 [1 ..< n] # zs
         \<and> (\<forall>y\<in>set ys. counts ! y < counts ! select_first (\<lambda>a b. b < a) (\<lambda>k. counts ! k) 0 [1 ..< n])
         \<and> (\<forall>z\<in>set zs. \<not> counts ! select_first (\<lambda>a b. b < a) (\<lambda>k. counts ! k) 0 [1 ..< n] < counts ! z)"
    by (rule select_first_split) auto
  then obtain ys zs where sp: "0 # [1 ..< n] = ys @ k # zs"
    and before: "\<forall>y\<in>set ys. counts ! y < counts ! k"
    and after: "\<forall>z\<in>set zs. \<not> counts ! k < counts ! z"
    unfolding k [symmetric] by blast
  from n have "[0 ..< n] = 0 # [1 ..< n]" by (simp add: upt_conv_Cons)
  with sp have "[0 ..< n] = ys @ k # zs" by simp
  then have ys: "ys = [0 ..< k]" and zs: "zs = [Suc k ..< n]" and kn: "k < n"
    using upt_split_at by blast+
  have fs: "counts ! j < counts ! k" if "j < k" for j
  proof -
    from that have "j \<in> set ys" unfolding ys by simp
    with before show ?thesis by blast
  qed
  have mx: "counts ! j \<le> counts ! k" if "j < n" for j
  proof -
    consider "j < k" | "j = k" | "k < j" by linarith
    then show ?thesis
    proof cases
      case 1
      then have "counts ! j < counts ! k" by (rule fs)
      then show ?thesis by simp
    next
      case 2
      then show ?thesis by simp
    next
      case 3
      with that have "j \<in> set zs" unfolding zs by simp
      with after have "\<not> counts ! k < counts ! j" by blast
      then show ?thesis by simp
    qed
  qed
  from kn fs mx show ?thesis unfolding n_def by blast
qed

lemma unique_counts_select:
  assumes "argmax (snd (unique_counts pairs)) = Some k"
  shows "fst (unique_counts pairs) ! k \<in> set pairs
       \<and> (\<forall>q\<in>set pairs. count_list pairs q \<le> count_list pairs (fst (unique_counts pairs) ! k))
       \<and> (\<forall>q\<in>set pairs. count_list pairs q = count_list pairs (fst (unique_counts pairs) ! k)
             \<longrightarrow> fst (unique_counts pairs) ! k \<le> q)"
proof -
  define u where "u = sort (remdups pairs)"
  define cs where "cs = map (\<lambda>p. count_list pairs p) u"
  have uc: "unique_counts pairs = (u, cs)" by (simp add: unique_counts_def u_def cs_def Let_def)
  have su: "set u = set pairs" and so: "sorted u" by (simp_all add: u_def)
  have len: "length cs = length u" by (simp add: cs_def)
  have nth: "cs ! j = count_list pairs (u ! j)" if "j < length u" for j
    using that by (simp add: cs_def)
  from assms uc have "argmax cs = Some k" by simp
  from argmax_first [OF this] have k: "k < length u"
    and mx: "\<forall>j<length u. cs ! j \<le> cs ! k" and fs: "\<forall>j<k. cs ! j < cs ! k"
    unfolding len by blast+
  from k have "u ! k \<in> set u" by (rule nth_mem)
  with su have 1: "u ! k \<in> set pairs" by simp
  have 2: "count_list pairs q \<le> count_list pairs (u ! k)" if "q \<in> set pairs" for q
  proof -
    from that su have "q \<in> set u" by simp
    then obtain j where j: "j < length u" "u ! j = q" unfolding in_set_conv_nth by blast
    with mx have "cs ! j \<le> cs ! k" by blast
    with j k show ?thesis by (simp add: nth)
  qed
  have 3: "u ! k \<le> q" if "q \<in> set pairs" "count_list pairs q = count_list pairs (u ! k)" for q
  proof -
    from that su have "q \<in> set u" by simp
    then obtain j where j: "j < length u" "u ! j = q" unfolding in_set_conv_nth by blast
    have "\<not> j < k"
    proof
      assume "j < k"
      with fs have "cs ! j < cs ! k" by blast
      with j k that show False by (simp add: nth)
    qed
    then have "k \<le> j" by simp
    with so have "u ! k \<le> u ! j" using j(1) by (rule sorted_nth_mono)
    with j show ?thesis by simp
  qed
  from 1 2 3 show ?thesis unfolding uc by simp
qed

lemma py_max_stats_select:
  assumes "py_max snd (get_stats ids) = Inr (p, c)"
  shows "p \<in> set (zip ids (tl ids))
       \<and> c = count_list (zip ids (tl ids)) p
       \<and> (\<forall>q\<in>set (zip ids (tl ids)). count_list (zip ids (tl ids)) q \<le> c)
       \<and> (\<exists>us vs. zip ids (tl ids) = us @ p # vs
             \<and> (\<forall>q\<in>set us. count_list (zip ids (tl ids)) q < c))"
proof -
  define pairs where "pairs = zip ids (tl ids)"
  define stats where "stats = get_stats ids"
  from py_max_first [OF assms] obtain ys zs where
    sp: "stats = ys @ (p, c) # zs"
    and before: "\<forall>y\<in>set ys. snd y < c"
    and after: "\<forall>z\<in>set zs. snd z \<le> c"
    unfolding stats_def by auto
  have cnt: "d = count_list pairs q" if "(q, d) \<in> set stats" for q d
    using get_stats_count [of q d ids] that unfolding stats_def pairs_def by blast
  have keys: "set (map fst stats) = set pairs"
    unfolding stats_def pairs_def by (rule get_stats_keys)
  have bm: "(p, c) \<in> set stats" unfolding sp by simp
  have 1: "p \<in> set pairs"
  proof -
    from bm have "p \<in> set (map fst stats)" by force
    then show ?thesis unfolding keys .
  qed
  from bm have 2: "c = count_list pairs p" by (rule cnt)
  have 3: "count_list pairs q \<le> c" if "q \<in> set pairs" for q
  proof -
    from that have "q \<in> set (map fst stats)" unfolding keys .
    then obtain d where e: "(q, d) \<in> set stats" by auto
    then have d: "d = count_list pairs q" by (rule cnt)
    from e have "(q, d) \<in> set ys \<or> d = c \<or> (q, d) \<in> set zs" unfolding sp by auto
    then have "d \<le> c"
    proof (elim disjE)
      assume "(q, d) \<in> set ys"
      with before have "snd (q, d) < c" by blast
      then show ?thesis by simp
    next
      assume "d = c"
      then show ?thesis by simp
    next
      assume "(q, d) \<in> set zs"
      with after have "snd (q, d) \<le> c" by blast
      then show ?thesis by simp
    qed
    with d show ?thesis by simp
  qed
  from split_list_first [OF 1] obtain us vs where
    split: "pairs = us @ p # vs" and nin: "p \<notin> set us"
    by blast
  from get_stats_first_occurrence [of ids us p vs] split nin obtain rest where
    k1: "map fst stats = rev (remdups (rev us)) @ p # rest"
    unfolding stats_def pairs_def by blast
  have k2: "map fst stats = map fst ys @ p # map fst zs" unfolding sp by simp
  have "distinct (map fst stats)" unfolding stats_def by (rule get_stats_distinct)
  then have "distinct (map fst ys @ p # map fst zs)" unfolding k2 .
  then have nys: "p \<notin> set (map fst ys)" and nzs: "p \<notin> set (map fst zs)" by simp_all
  from k1 k2 have "map fst ys @ p # map fst zs = rev (remdups (rev us)) @ p # rest"
    by simp
  then have "map fst ys = rev (remdups (rev us)) \<and> map fst zs = rest"
    by (rule append_Cons_eq_iff [OF nys nzs, THEN iffD1])
  then have "rev (remdups (rev us)) = map fst ys" by simp
  then have "set (rev (remdups (rev us))) = set (map fst ys)" by (rule arg_cong)
  then have ysu: "set (map fst ys) = set us" by simp
  have 4: "count_list pairs q < c" if "q \<in> set us" for q
  proof -
    from that have "q \<in> set (map fst ys)" unfolding ysu .
    then obtain d where e: "(q, d) \<in> set ys" by auto
    then have "(q, d) \<in> set stats" unfolding sp by simp
    then have "d = count_list pairs q" by (rule cnt)
    moreover from before e have "snd (q, d) < c" by blast
    ultimately show ?thesis by simp
  qed
  from 1 2 3 4 split show ?thesis unfolding pairs_def by blast
qed

lemma vocab_add_Inr:
  "vocab_add v p idx = Inr v' \<Longrightarrow>
     \<exists>l r. v (fst p) = Some l \<and> v (snd p) = Some r \<and> v' = v(idx \<mapsto> l @ r)"
  by (auto simp: vocab_add_def split: option.splits)

lemma train_step_Inr:
  assumes "train_step i (ids, tk) = Inr (ids', tk')"
  shows "\<exists>p c. py_max snd (get_stats ids) = Inr (p, c)
           \<and> ids' = merge ids p (256 + int i)
           \<and> merges tk' = (merges tk)(p \<mapsto> 256 + int i)
           \<and> vocab_add (vocab tk) p (256 + int i) = Inr (vocab tk')"
proof (cases "py_max snd (get_stats ids)")
  case (Inl e)
  with assms show ?thesis by (simp add: train_step_def Let_def)
next
  case (Inr best)
  obtain p c where best: "best = (p, c)" by (cases best)
  show ?thesis
  proof (cases "vocab_add (vocab tk) p (256 + int i)")
    case (Inl e)
    with assms Inr best show ?thesis by (simp add: train_step_def Let_def)
  next
    case r: (Inr v')
    with assms Inr best show ?thesis by (auto simp: train_step_def Let_def)
  qed
qed

lemma vectorized_step_Inr:
  assumes "vectorized_step i (ids, tk) = Inr (ids', tk')"
  shows "\<exists>k. argmax (snd (unique_counts (zip (butlast ids) (tl ids)))) = Some k
           \<and> ids' = mask_merge ids (zip (butlast ids) (tl ids))
                      (fst (unique_counts (zip (butlast ids) (tl ids))) ! k) (256 + int i)
           \<and> merges tk' = (merges tk)(fst (unique_counts (zip (butlast ids) (tl ids))) ! k \<mapsto> 256 + int i)
           \<and> vocab_add (vocab tk) (fst (unique_counts (zip (butlast ids) (tl ids))) ! k) (256 + int i)
               = Inr (vocab tk')"
proof (cases "argmax (snd (unique_counts (zip (butlast ids) (tl ids))))")
  case None
  with assms show ?thesis by (simp add: vectorized_step_def)
next
  case (Some k)
  show ?thesis
  proof (cases "vocab_add (vocab tk) (fst (unique_counts (zip (butlast ids) (tl ids))) ! k) (256 + int i)")
    case (Inl e)
    with assms Some show ?thesis by (simp add: vectorized_step_def Let_def)
  next
    case (Inr v')
    with assms Some show ?thesis by (auto simp: vectorized_step_def Let_def)
  qed
qed

lemma gpu_step_Inr:
  assumes "gpu_step i (ids, mp) = Inr (ids', mp')"
  shows "\<exists>k. argmax (snd (unique_counts (zip (butlast ids) (tl ids)))) = Some k
           \<and> ids' = mask_merge ids (zip (butlast ids) (tl ids))
                      (fst (unique_counts (zip (butlast ids) (tl ids))) ! k) (int i + 256)
           \<and> mp' = mp[i := fst (unique_counts (zip (butlast ids) (tl ids))) ! k]"
  using assms
  by (cases "argmax (snd (unique_counts (zip (butlast ids) (tl ids))))")
     (auto simp: gpu_step_def Let_def)

lemma pair_le_iff: "(p :: pair) \<le> q \<longleftrightarrow> fst p < fst q \<or> (fst p = fst q \<and> snd p \<le> snd q)"
  by (auto simp: less_eq_prod_def)

section \<open>The tie-break of the three strategies\<close>

text \<open>
  C3, as the claim states it, on the sequence 99, 97, 98: both adjacent pairs occur
  once, \<open>train\<close> merges (99, 97), and (97, 98) is the smaller pair.
\<close>

theorem train_tie_not_lexicographic:
  "train_step 0 ([99, 97, 98], \<lparr>merges = Map.empty, vocab = seed_vocab\<rparr>)
     = Inr ([256, 98], \<lparr>merges = [(99, 97) \<mapsto> 256], vocab = seed_vocab(256 \<mapsto> [99, 97])\<rparr>)
   \<and> zip [99, 97, 98 :: int] (tl [99, 97, 98]) = [(99, 97), (97, 98)]
   \<and> count_list [(99, 97), (97, 98) :: pair] (99, 97) = 1
   \<and> count_list [(99, 97), (97, 98) :: pair] (97, 98) = 1
   \<and> ((97, 98) :: pair) < (99, 97)"
  by (simp add: train_step_def get_stats_def py_max_def vocab_add_def seed_vocab_def Let_def)

text \<open>
  C3, amended. An iteration of \<open>train_vectorized\<close> or of \<open>train_gpu\<close> merges a pair
  of maximal count that is the lexicographically smallest of the pairs with that count
  (left id first, then right id). An iteration of \<open>train\<close> merges a pair of maximal
  count too, but the one whose first occurrence in the sequence comes first: every pair
  that occurs before it has a strictly smaller count.
\<close>

theorem selected_pair:
  "(vectorized_step i (ids, tk) = Inr (ids', tk') \<longrightarrow>
      (\<exists>p. merges tk' = (merges tk)(p \<mapsto> 256 + int i)
         \<and> ids' = mask_merge ids (zip (butlast ids) (tl ids)) p (256 + int i)
         \<and> p \<in> set (zip ids (tl ids))
         \<and> (\<forall>q\<in>set (zip ids (tl ids)).
               count_list (zip ids (tl ids)) q \<le> count_list (zip ids (tl ids)) p)
         \<and> (\<forall>q\<in>set (zip ids (tl ids)).
               count_list (zip ids (tl ids)) q = count_list (zip ids (tl ids)) p
               \<longrightarrow> fst p < fst q \<or> (fst p = fst q \<and> snd p \<le> snd q))))
   \<and> (gpu_step i (ids, merge_pairs) = Inr (ids', merge_pairs') \<longrightarrow>
      (\<exists>p. merge_pairs' = merge_pairs[i := p]
         \<and> ids' = mask_merge ids (zip (butlast ids) (tl ids)) p (int i + 256)
         \<and> p \<in> set (zip ids (tl ids))
         \<and> (\<forall>q\<in>set (zip ids (tl ids)).
               count_list (zip ids (tl ids)) q \<le> count_list (zip ids (tl ids)) p)
         \<and> (\<forall>q\<in>set (zip ids (tl ids)).
               count_list (zip ids (tl ids)) q = count_list (zip ids (tl ids)) p
               \<longrightarrow> fst p < fst q \<or> (fst p = fst q \<and> snd p \<le> snd q))))
   \<and> (train_step i (ids, tk) = Inr (ids', tk') \<longrightarrow>
      (\<exists>p us vs. merges tk' = (merges tk)(p \<mapsto> 256 + int i)
         \<and> ids' = merge ids p (256 + int i)
         \<and> zip ids (tl ids) = us @ p # vs
         \<and> (\<forall>q\<in>set (zip ids (tl ids)).
               count_list (zip ids (tl ids)) q \<le> count_list (zip ids (tl ids)) p)
         \<and> (\<forall>q\<in>set us.
               count_list (zip ids (tl ids)) q < count_list (zip ids (tl ids)) p)))"
proof (intro conjI impI)
  assume "vectorized_step i (ids, tk) = Inr (ids', tk')"
  from vectorized_step_Inr [OF this] obtain k where
    k: "argmax (snd (unique_counts (zip ids (tl ids)))) = Some k"
    and ids': "ids' = mask_merge ids (zip (butlast ids) (tl ids))
                      (fst (unique_counts (zip ids (tl ids))) ! k) (256 + int i)"
    and m: "merges tk' = (merges tk)(fst (unique_counts (zip ids (tl ids))) ! k \<mapsto> 256 + int i)"
    unfolding zip_butlast_tl [of ids, symmetric] by blast
  from unique_counts_select [OF k] m ids'
  show "\<exists>p. merges tk' = (merges tk)(p \<mapsto> 256 + int i)
         \<and> ids' = mask_merge ids (zip (butlast ids) (tl ids)) p (256 + int i)
         \<and> p \<in> set (zip ids (tl ids))
         \<and> (\<forall>q\<in>set (zip ids (tl ids)).
               count_list (zip ids (tl ids)) q \<le> count_list (zip ids (tl ids)) p)
         \<and> (\<forall>q\<in>set (zip ids (tl ids)).
               count_list (zip ids (tl ids)) q = count_list (zip ids (tl ids)) p
               \<longrightarrow> fst p < fst q \<or> (fst p = fst q \<and> snd p \<le> snd q))"
    unfolding pair_le_iff by blast
next
  assume "gpu_step i (ids, merge_pairs) = Inr (ids', merge_pairs')"
  from gpu_step_Inr [OF this] obtain k where
    k: "argmax (snd (unique_counts (zip ids (tl ids)))) = Some k"
    and ids': "ids' = mask_merge ids (zip (butlast ids) (tl ids))
                      (fst (unique_counts (zip ids (tl ids))) ! k) (int i + 256)"
    and m: "merge_pairs' = merge_pairs[i := fst (unique_counts (zip ids (tl ids))) ! k]"
    unfolding zip_butlast_tl [of ids, symmetric] by blast
  from unique_counts_select [OF k] m ids'
  show "\<exists>p. merge_pairs' = merge_pairs[i := p]
         \<and> ids' = mask_merge ids (zip (butlast ids) (tl ids)) p (int i + 256)
         \<and> p \<in> set (zip ids (tl ids))
         \<and> (\<forall>q\<in>set (zip ids (tl ids)).
               count_list (zip ids (tl ids)) q \<le> count_list (zip ids (tl ids)) p)
         \<and> (\<forall>q\<in>set (zip ids (tl ids)).
               count_list (zip ids (tl ids)) q = count_list (zip ids (tl ids)) p
               \<longrightarrow> fst p < fst q \<or> (fst p = fst q \<and> snd p \<le> snd q))"
    unfolding pair_le_iff by blast
next
  assume "train_step i (ids, tk) = Inr (ids', tk')"
  from train_step_Inr [OF this] obtain p c where
    sel: "py_max snd (get_stats ids) = Inr (p, c)"
    and ids': "ids' = merge ids p (256 + int i)"
    and m: "merges tk' = (merges tk)(p \<mapsto> 256 + int i)"
    by blast
  from py_max_stats_select [OF sel] obtain us vs where
    c: "c = count_list (zip ids (tl ids)) p"
    and mx: "\<forall>q\<in>set (zip ids (tl ids)). count_list (zip ids (tl ids)) q \<le> c"
    and sp: "zip ids (tl ids) = us @ p # vs"
    and fs: "\<forall>q\<in>set us. count_list (zip ids (tl ids)) q < c"
    by blast
  from m ids' sp mx fs
  show "\<exists>p us vs. merges tk' = (merges tk)(p \<mapsto> 256 + int i)
         \<and> ids' = merge ids p (256 + int i)
         \<and> zip ids (tl ids) = us @ p # vs
         \<and> (\<forall>q\<in>set (zip ids (tl ids)).
               count_list (zip ids (tl ids)) q \<le> count_list (zip ids (tl ids)) p)
         \<and> (\<forall>q\<in>set us.
               count_list (zip ids (tl ids)) q < count_list (zip ids (tl ids)) p)"
    unfolding c by blast
qed


theorem selected_pair_witness:
  "vectorized_step 0 ([99, 97, 98], \<lparr>merges = Map.empty, vocab = seed_vocab\<rparr>)
     = Inr ([99, 256], \<lparr>merges = [(97, 98) \<mapsto> 256], vocab = seed_vocab(256 \<mapsto> [97, 98])\<rparr>)
   \<and> (\<exists>p. merges \<lparr>merges = [(97, 98) \<mapsto> 256], vocab = seed_vocab(256 \<mapsto> [97, 98])\<rparr> = (merges \<lparr>merges = Map.empty, vocab = seed_vocab\<rparr>)(p \<mapsto> 256 + int 0)
         \<and> [99, 256] = mask_merge [99, 97, 98] (zip (butlast [99, 97, 98]) (tl [99, 97, 98])) p (256 + int 0)
         \<and> p \<in> set (zip [99, 97, 98 :: int] (tl [99, 97, 98 :: int]))
         \<and> (\<forall>q\<in>set (zip [99, 97, 98 :: int] (tl [99, 97, 98 :: int])).
               count_list (zip [99, 97, 98 :: int] (tl [99, 97, 98 :: int])) q \<le> count_list (zip [99, 97, 98 :: int] (tl [99, 97, 98 :: int])) p)
         \<and> (\<forall>q\<in>set (zip [99, 97, 98 :: int] (tl [99, 97, 98 :: int])).
               count_list (zip [99, 97, 98 :: int] (tl [99, 97, 98 :: int])) q = count_list (zip [99, 97, 98 :: int] (tl [99, 97, 98 :: int])) p
               \<longrightarrow> fst p < fst q \<or> (fst p = fst q \<and> snd p \<le> snd q)))
   \<and> gpu_step 0 ([99, 97, 98], [(0, 0)]) = Inr ([99, 256], [(97, 98)])
   \<and> (\<exists>p. [(97, 98)] = [(0, 0)][0 := p]
         \<and> [99, 256] = mask_merge [99, 97, 98] (zip (butlast [99, 97, 98]) (tl [99, 97, 98])) p (int 0 + 256)
         \<and> p \<in> set (zip [99, 97, 98 :: int] (tl [99, 97, 98 :: int]))
         \<and> (\<forall>q\<in>set (zip [99, 97, 98 :: int] (tl [99, 97, 98 :: int])).
               count_list (zip [99, 97, 98 :: int] (tl [99, 97, 98 :: int])) q \<le> count_list (zip [99, 97, 98 :: int] (tl [99, 97, 98 :: int])) p)
         \<and> (\<forall>q\<in>set (zip [99, 97, 98 :: int] (tl [99, 97, 98 :: int])).
               count_list (zip [99, 97, 98 :: int] (tl [99, 97, 98 :: int])) q = count_list (zip [99, 97, 98 :: int] (tl [99, 97, 98 :: int])) p
               \<longrightarrow> fst p < fst q \<or> (fst p = fst q \<and> snd p \<le> snd q)))
   \<and> train_step 0 ([99, 97, 98], \<lparr>merges = Map.empty, vocab = seed_vocab\<rparr>)
     = Inr ([256, 98], \<lparr>merges = [(99, 97) \<mapsto> 256], vocab = seed_vocab(256 \<mapsto> [99, 97])\<rparr>)
   \<and> (\<exists>p us vs. merges \<lparr>merges = [(99, 97) \<mapsto> 256], vocab = seed_vocab(256 \<mapsto> [99, 97])\<rparr> = (merges \<lparr>merges = Map.empty, vocab = seed_vocab\<rparr>)(p \<mapsto> 256 + int 0)
         \<and> [256, 98] = merge [99, 97, 98] p (256 + int 0)
         \<and> zip [99, 97, 98 :: int] (tl [99, 97, 98 :: int]) = us @ p # vs
         \<and> (\<forall>q\<in>set (zip [99, 97, 98 :: int] (tl [99, 97, 98 :: int])).
               count_list (zip [99, 97, 98 :: int] (tl [99, 97, 98 :: int])) q \<le> count_list (zip [99, 97, 98 :: int] (tl [99, 97, 98 :: int])) p)
         \<and> (\<forall>q\<in>set us.
               count_list (zip [99, 97, 98 :: int] (tl [99, 97, 98 :: int])) q < count_list (zip [99, 97, 98 :: int] (tl [99, 97, 98 :: int])) p))"
proof -
  have so: "sort [(99, 97), (97, 98) :: pair] = [(97, 98), (99, 97)]"
    by (simp add: less_eq_prod_def)
  have am: "argmax [Suc 0, Suc 0] = Some 0"
    by (simp add: argmax_def upt_rec)
  have hv: "vectorized_step 0 ([99, 97, 98], \<lparr>merges = Map.empty, vocab = seed_vocab\<rparr>)
     = Inr ([99, 256], \<lparr>merges = [(97, 98) \<mapsto> 256], vocab = seed_vocab(256 \<mapsto> [97, 98])\<rparr>)"
    by (simp add: vectorized_step_def unique_counts_def so am mask_merge_def vocab_add_def
        seed_vocab_def Let_def)
  have hg: "gpu_step 0 ([99, 97, 98], [(0, 0)]) = Inr ([99, 256], [(97, 98)])"
    by (simp add: gpu_step_def unique_counts_def so am mask_merge_def Let_def)
  have ht: "train_step 0 ([99, 97, 98], \<lparr>merges = Map.empty, vocab = seed_vocab\<rparr>)
     = Inr ([256, 98], \<lparr>merges = [(99, 97) \<mapsto> 256], vocab = seed_vocab(256 \<mapsto> [99, 97])\<rparr>)"
    by (simp add: train_step_def get_stats_def py_max_def vocab_add_def seed_vocab_def Let_def)
  from selected_pair [of 0 "[99, 97, 98]" "\<lparr>merges = Map.empty, vocab = seed_vocab\<rparr>" "[99, 256]"
      "\<lparr>merges = [(97, 98) \<mapsto> 256], vocab = seed_vocab(256 \<mapsto> [97, 98])\<rparr>" "[(0, 0)]" "[(97, 98)]"] hv
  have cv: "(\<exists>p. merges \<lparr>merges = [(97, 98) \<mapsto> 256], vocab = seed_vocab(256 \<mapsto> [97, 98])\<rparr> = (merges \<lparr>merges = Map.empty, vocab = seed_vocab\<rparr>)(p \<mapsto> 256 + int 0)
         \<and> [99, 256] = mask_merge [99, 97, 98] (zip (butlast [99, 97, 98]) (tl [99, 97, 98])) p (256 + int 0)
         \<and> p \<in> set (zip [99, 97, 98 :: int] (tl [99, 97, 98 :: int]))
         \<and> (\<forall>q\<in>set (zip [99, 97, 98 :: int] (tl [99, 97, 98 :: int])).
               count_list (zip [99, 97, 98 :: int] (tl [99, 97, 98 :: int])) q \<le> count_list (zip [99, 97, 98 :: int] (tl [99, 97, 98 :: int])) p)
         \<and> (\<forall>q\<in>set (zip [99, 97, 98 :: int] (tl [99, 97, 98 :: int])).
               count_list (zip [99, 97, 98 :: int] (tl [99, 97, 98 :: int])) q = count_list (zip [99, 97, 98 :: int] (tl [99, 97, 98 :: int])) p
               \<longrightarrow> fst p < fst q \<or> (fst p = fst q \<and> snd p \<le> snd q)))" by blast
  from selected_pair [of 0 "[99, 97, 98]" "\<lparr>merges = Map.empty, vocab = seed_vocab\<rparr>" "[99, 256]"
      "\<lparr>merges = [(97, 98) \<mapsto> 256], vocab = seed_vocab(256 \<mapsto> [97, 98])\<rparr>" "[(0, 0)]" "[(97, 98)]"] hg
  have cg: "(\<exists>p. [(97, 98)] = [(0, 0)][0 := p]
         \<and> [99, 256] = mask_merge [99, 97, 98] (zip (butlast [99, 97, 98]) (tl [99, 97, 98])) p (int 0 + 256)
         \<and> p \<in> set (zip [99, 97, 98 :: int] (tl [99, 97, 98 :: int]))
         \<and> (\<forall>q\<in>set (zip [99, 97, 98 :: int] (tl [99, 97, 98 :: int])).
               count_list (zip [99, 97, 98 :: int] (tl [99, 97, 98 :: int])) q \<le> count_list (zip [99, 97, 98 :: int] (tl [99, 97, 98 :: int])) p)
         \<and> (\<forall>q\<in>set (zip [99, 97, 98 :: int] (tl [99, 97, 98 :: int])).
               count_list (zip [99, 97, 98 :: int] (tl [99, 97, 98 :: int])) q = count_list (zip [99, 97, 98 :: int] (tl [99, 97, 98 :: int])) p
               \<longrightarrow> fst p < fst q \<or> (fst p = fst q \<and> snd p \<le> snd q)))" by blast
  from selected_pair [of 0 "[99, 97, 98]" "\<lparr>merges = Map.empty, vocab = seed_vocab\<rparr>" "[256, 98]"
      "\<lparr>merges = [(99, 97) \<mapsto> 256], vocab = seed_vocab(256 \<mapsto> [99, 97])\<rparr>" "[(0, 0)]" "[(97, 98)]"] ht
  have ct: "(\<exists>p us vs. merges \<lparr>merges = [(99, 97) \<mapsto> 256], vocab = seed_vocab(256 \<mapsto> [99, 97])\<rparr> = (merges \<lparr>merges = Map.empty, vocab = seed_vocab\<rparr>)(p \<mapsto> 256 + int 0)
         \<and> [256, 98] = merge [99, 97, 98] p (256 + int 0)
         \<and> zip [99, 97, 98 :: int] (tl [99, 97, 98 :: int]) = us @ p # vs
         \<and> (\<forall>q\<in>set (zip [99, 97, 98 :: int] (tl [99, 97, 98 :: int])).
               count_list (zip [99, 97, 98 :: int] (tl [99, 97, 98 :: int])) q \<le> count_list (zip [99, 97, 98 :: int] (tl [99, 97, 98 :: int])) p)
         \<and> (\<forall>q\<in>set us.
               count_list (zip [99, 97, 98 :: int] (tl [99, 97, 98 :: int])) q < count_list (zip [99, 97, 98 :: int] (tl [99, 97, 98 :: int])) p))" by blast
  from hv cv hg cg ht ct show ?thesis by blast
qed

section \<open>Overlapping occurrences of the merged pair\<close>

lemma utf8_encode_aaa: "utf8_encode [97, 97, 97] = Inr [97, 97, 97]"
  by (simp add: utf8_encode_def utf8_encode_cp_def)

lemma train_aaa:
  "train [97, 97, 97] 258
     = Inr \<lparr>merges = [(97, 97) \<mapsto> 256, (256, 97) \<mapsto> 257],
            vocab = seed_vocab(256 \<mapsto> [97, 97], 257 \<mapsto> [97, 97, 97])\<rparr>"
proof -
  have n: "nat (258 - 256) = Suc (Suc 0)" by simp
  show ?thesis
    unfolding train_def utf8_encode_aaa n
    by (simp add: train_step_def get_stats_def py_max_def vocab_add_def seed_vocab_def Let_def)
qed

lemma train_vectorized_aaa: "train_vectorized [97, 97, 97] 258 = Inl ValueError"
proof -
  have n: "nat (258 - 256) = Suc (Suc 0)" by simp
  show ?thesis
    unfolding train_vectorized_def utf8_encode_aaa n
    by (simp add: vectorized_step_def unique_counts_def argmax_def mask_merge_def vocab_add_def
        seed_vocab_def Let_def)
qed

text \<open>
  C2. On the sequence \<open>x, x, x\<close> and the pair \<open>(x, x)\<close> the scan of \<open>merge\<close> gives
  \<open>new_id, x\<close>. The mask of \<open>train_vectorized\<close> and \<open>train_gpu\<close> marks the
  positions 0 and 1, both are overwritten and the positions 1 and 2 are dropped: one
  token is left. On the text \<open>aaa\<close> with \<open>vocab_size = 258\<close>, \<open>train\<close> therefore
  learns a second merge, and \<open>train_vectorized\<close> finds no pair left and raises.
\<close>

theorem mask_merge_overlap:
  "merge [x, x, x] (x, x) new_id = [new_id, x]
   \<and> mask_merge [x, x, x] (zip (butlast [x, x, x]) (tl [x, x, x])) (x, x) new_id = [new_id]
   \<and> train_vectorized [97, 97, 97] 258 = Inl ValueError
   \<and> train [97, 97, 97] 258
       = Inr \<lparr>merges = [(97, 97) \<mapsto> 256, (256, 97) \<mapsto> 257],
              vocab = seed_vocab(256 \<mapsto> [97, 97], 257 \<mapsto> [97, 97, 97])\<rparr>"
  by (simp add: mask_merge_def train_aaa train_vectorized_aaa)

section \<open>The invariant of the training loops\<close>

lemma tokenizer_ok_seed: "tokenizer_ok 0 \<lparr>merges = Map.empty, vocab = seed_vocab\<rparr>"
  by (auto simp: tokenizer_ok_def seed_vocab_def dom_def)

lemma zip_tl_members: "p \<in> set (zip ids (tl ids)) \<Longrightarrow> fst p \<in> set ids \<and> snd p \<in> set ids"
proof -
  assume a: "p \<in> set (zip ids (tl ids))"
  then have "(fst p, snd p) \<in> set (zip ids (tl ids))" by simp
  then have "fst p \<in> set ids" and "snd p \<in> set (tl ids)"
    by (rule set_zip_leftD, rule set_zip_rightD)
  then show ?thesis by (cases ids) auto
qed

lemma step_preserves:
  assumes ok: "tokenizer_ok i tk"
    and ids: "set ids \<subseteq> {0 ..< 256 + int i}"
    and p: "p \<in> set (zip ids (tl ids))"
  shows "\<exists>l r. vocab tk (fst p) = Some l \<and> vocab tk (snd p) = Some r
           \<and> vocab_add (vocab tk) p (256 + int i) = Inr ((vocab tk)(256 + int i \<mapsto> l @ r))
           \<and> tokenizer_ok (Suc i)
               \<lparr>merges = (merges tk)(p \<mapsto> 256 + int i),
                vocab = (vocab tk)(256 + int i \<mapsto> l @ r)\<rparr>
           \<and> vocab tk \<subseteq>\<^sub>m (vocab tk)(256 + int i \<mapsto> l @ r)"
proof -
  from ok have d: "dom (vocab tk) = {0 ..< 256 + int i}"
    and seed: "\<forall>b. 0 \<le> b \<and> b < 256 \<longrightarrow> vocab tk b = Some [word_of_int b]"
    and mg: "\<forall>p idx. merges tk p = Some idx \<longrightarrow>
            256 \<le> idx \<and> idx < 256 + int i
            \<and> (\<exists>l r. vocab tk (fst p) = Some l \<and> vocab tk (snd p) = Some r
                  \<and> vocab tk idx = Some (l @ r))"
    unfolding tokenizer_ok_def by blast+
  from zip_tl_members [OF p] ids have "fst p \<in> dom (vocab tk)" "snd p \<in> dom (vocab tk)"
    unfolding d by blast+
  then obtain l r where l: "vocab tk (fst p) = Some l" and r: "vocab tk (snd p) = Some r"
    by blast
  from zip_tl_members [OF p] ids have lt: "fst p < 256 + int i" "snd p < 256 + int i"
    by auto
  have fresh: "vocab tk (256 + int i) = None"
  proof -
    have "256 + int i \<notin> dom (vocab tk)" unfolding d by simp
    then show ?thesis by blast
  qed
  let ?v = "(vocab tk)(256 + int i \<mapsto> l @ r)"
  have add: "vocab_add (vocab tk) p (256 + int i) = Inr ?v"
    by (simp add: vocab_add_def l r)
  have le: "vocab tk \<subseteq>\<^sub>m ?v"
    using fresh by (auto simp: map_le_def dom_def)
  have old: "?v k = vocab tk k" if "k < 256 + int i" for k
    using that by simp
  have ok': "tokenizer_ok (Suc i) \<lparr>merges = (merges tk)(p \<mapsto> 256 + int i), vocab = ?v\<rparr>"
    unfolding tokenizer_ok_def
  proof (intro conjI allI impI)
    show "dom (vocab \<lparr>merges = (merges tk)(p \<mapsto> 256 + int i), vocab = ?v\<rparr>) = {0 ..< 256 + int (Suc i)}"
      using d by auto
  next
    fix b :: int assume "0 \<le> b \<and> b < 256"
    with seed show "vocab \<lparr>merges = (merges tk)(p \<mapsto> 256 + int i), vocab = ?v\<rparr> b = Some [word_of_int b]"
      by simp
  next
    fix q idx
    assume a: "merges \<lparr>merges = (merges tk)(p \<mapsto> 256 + int i), vocab = ?v\<rparr> q = Some idx"
    show "256 \<le> idx"
    proof (cases "q = p")
      case True
      with a show ?thesis by simp
    next
      case False
      with a have "merges tk q = Some idx" by simp
      with mg show ?thesis by blast
    qed
    show "idx < 256 + int (Suc i)"
    proof (cases "q = p")
      case True
      with a show ?thesis by simp
    next
      case False
      with a have "merges tk q = Some idx" by simp
      with mg have "idx < 256 + int i" by blast
      then show ?thesis by simp
    qed
    show "\<exists>l r. vocab \<lparr>merges = (merges tk)(p \<mapsto> 256 + int i), vocab = ?v\<rparr> (fst q) = Some l
            \<and> vocab \<lparr>merges = (merges tk)(p \<mapsto> 256 + int i), vocab = ?v\<rparr> (snd q) = Some r
            \<and> vocab \<lparr>merges = (merges tk)(p \<mapsto> 256 + int i), vocab = ?v\<rparr> idx = Some (l @ r)"
    proof (cases "q = p")
      case True
      with a have "idx = 256 + int i" by simp
      with True l r lt show ?thesis by simp
    next
      case False
      with a have m: "merges tk q = Some idx" by simp
      with mg obtain l' r' where
        "vocab tk (fst q) = Some l'" "vocab tk (snd q) = Some r'" "vocab tk idx = Some (l' @ r')"
        and "idx < 256 + int i"
        by blast
      moreover from this fresh have "fst q \<noteq> 256 + int i" "snd q \<noteq> 256 + int i"
        by auto
      ultimately show ?thesis by simp
    qed
  qed
  from l r add ok' le show ?thesis by blast
qed

lemma mask_merge_set: "set (mask_merge ids pairs p idx) \<subseteq> insert idx (set ids)"
proof -
  have 1: "set (map (\<lambda>(m, x). if m then idx else x) (zip mask ids)) \<subseteq> insert idx (set ids)"
    for mask :: "bool list"
  proof
    fix y assume "y \<in> set (map (\<lambda>(m, x). if m then idx else x) (zip mask ids))"
    then obtain m x where mx: "(m, x) \<in> set (zip mask ids)" and y: "y = (if m then idx else x)"
      by auto
    from mx have "x \<in> set ids" by (rule set_zip_rightD)
    with y show "y \<in> insert idx (set ids)" by simp
  qed
  have 2: "set (map snd (filter P (zip rolled xs))) \<subseteq> set xs"
    for P and rolled :: "bool list" and xs :: "int list"
  proof
    fix y assume "y \<in> set (map snd (filter P (zip rolled xs)))"
    then obtain m where "(m, y) \<in> set (zip rolled xs)" by auto
    then show "y \<in> set xs" by (rule set_zip_rightD)
  qed
  show ?thesis unfolding mask_merge_def Let_def using 1 2 by blast
qed

section \<open>Loops whose body merges one adjacent pair\<close>

text \<open>
  The loops of \<open>train\<close> and \<open>train_vectorized\<close> differ in their bodies only. The
  facts below hold of every loop \<open>L\<close> over \<open>range\<close> whose body \<open>step\<close>, where it
  succeeds, merges a pair that is adjacent in the sequence, records it under the next id
  and extends the vocabulary by \<open>vocab_add\<close>.
\<close>

lemma loop_add:
  assumes L0: "\<And>i st. L i 0 st = Inr st"
    and LS: "\<And>i k st. L i (Suc k) st =
               (case step i st of Inl e \<Rightarrow> Inl e | Inr st' \<Rightarrow> L (Suc i) k st')"
  shows "L i (j + k) st = (case L i j st of Inl e \<Rightarrow> (Inl e :: error + 's) | Inr st' \<Rightarrow> L (i + j) k st')"
proof (induction j arbitrary: i st)
  case 0
  show ?case by (simp add: L0)
next
  case (Suc j)
  show ?case
  proof (cases "step i st")
    case (Inl e)
    then show ?thesis by (simp add: LS)
  next
    case (Inr st1)
    with Suc [of "Suc i" st1] show ?thesis by (simp add: LS split: sum.splits)
  qed
qed

lemma step_ok:
  assumes ok: "tokenizer_ok i tk"
    and ids: "set ids \<subseteq> {0 ..< 256 + int i}"
    and p: "p \<in> set (zip ids (tl ids))"
    and ids': "set ids' \<subseteq> insert (256 + int i) (set ids)"
    and m: "merges tk' = (merges tk)(p \<mapsto> 256 + int i)"
    and v: "vocab_add (vocab tk) p (256 + int i) = Inr (vocab tk')"
  shows "tokenizer_ok (Suc i) tk' \<and> set ids' \<subseteq> {0 ..< 256 + int (Suc i)}
         \<and> vocab tk \<subseteq>\<^sub>m vocab tk'
         \<and> (\<exists>l r. vocab tk' (fst p) = Some l \<and> vocab tk' (snd p) = Some r
               \<and> vocab tk' (256 + int i) = Some (l @ r))
         \<and> merges tk' p = Some (256 + int i)"
proof -
  from step_preserves [OF ok ids p] obtain l r where
    l: "vocab tk (fst p) = Some l" and r: "vocab tk (snd p) = Some r"
    and add: "vocab_add (vocab tk) p (256 + int i) = Inr ((vocab tk)(256 + int i \<mapsto> l @ r))"
    and ok': "tokenizer_ok (Suc i)
               \<lparr>merges = (merges tk)(p \<mapsto> 256 + int i),
                vocab = (vocab tk)(256 + int i \<mapsto> l @ r)\<rparr>"
    and le: "vocab tk \<subseteq>\<^sub>m (vocab tk)(256 + int i \<mapsto> l @ r)"
    by blast
  from add v have v': "vocab tk' = (vocab tk)(256 + int i \<mapsto> l @ r)" by simp
  have "tk' = \<lparr>merges = (merges tk)(p \<mapsto> 256 + int i), vocab = (vocab tk)(256 + int i \<mapsto> l @ r)\<rparr>"
    using m v' by simp
  with ok' have 1: "tokenizer_ok (Suc i) tk'" by simp
  have 2: "set ids' \<subseteq> {0 ..< 256 + int (Suc i)}"
  proof
    fix x assume "x \<in> set ids'"
    with ids' have "x = 256 + int i \<or> x \<in> set ids" by blast
    with ids show "x \<in> {0 ..< 256 + int (Suc i)}" by fastforce
  qed
  from le v' have 3: "vocab tk \<subseteq>\<^sub>m vocab tk'" by simp
  from zip_tl_members [OF p] ids have "fst p \<noteq> 256 + int i" "snd p \<noteq> 256 + int i" by auto
  with l r v' have 4: "\<exists>l r. vocab tk' (fst p) = Some l \<and> vocab tk' (snd p) = Some r
               \<and> vocab tk' (256 + int i) = Some (l @ r)" by simp
  from m have 5: "merges tk' p = Some (256 + int i)" by simp
  from 1 2 3 4 5 show ?thesis by blast
qed

lemma loop_ok:
  assumes L0: "\<And>i st. L i 0 st = Inr st"
    and LS: "\<And>i k st. L i (Suc k) st =
               (case step i st of Inl e \<Rightarrow> Inl e | Inr st' \<Rightarrow> L (Suc i) k st')"
    and S: "\<forall>i ids tk ids' tk'. step i (ids, tk) = Inr (ids', tk') \<longrightarrow>
               (\<exists>p. p \<in> set (zip ids (tl ids)) \<and> set ids' \<subseteq> insert (256 + int i) (set ids)
                 \<and> merges tk' = (merges tk)(p \<mapsto> 256 + int i)
                 \<and> vocab_add (vocab tk) p (256 + int i) = Inr (vocab tk'))"
  shows "tokenizer_ok i tk \<Longrightarrow> set ids \<subseteq> {0 ..< 256 + int i}
         \<Longrightarrow> L i k (ids, tk) = (Inr (ids', tk') :: error + int list \<times> tokenizer)
         \<Longrightarrow> tokenizer_ok (i + k) tk' \<and> set ids' \<subseteq> {0 ..< 256 + int (i + k)}
             \<and> vocab tk \<subseteq>\<^sub>m vocab tk'"
proof (induction k arbitrary: i ids tk)
  case 0
  then show ?case by (simp add: L0)
next
  case (Suc k)
  show ?case
  proof (cases "step i (ids, tk)")
    case (Inl e)
    with Suc.prems(3) show ?thesis by (simp add: LS)
  next
    case (Inr st1)
    obtain ids1 tk1 where st1: "st1 = (ids1, tk1)" by (cases st1)
    from S Inr [unfolded st1] obtain p where
      p: "p \<in> set (zip ids (tl ids))"
      and i1: "set ids1 \<subseteq> insert (256 + int i) (set ids)"
      and m: "merges tk1 = (merges tk)(p \<mapsto> 256 + int i)"
      and v: "vocab_add (vocab tk) p (256 + int i) = Inr (vocab tk1)"
      by blast
    from step_ok [OF Suc.prems(1) Suc.prems(2) p i1 m v]
    have ok1: "tokenizer_ok (Suc i) tk1" and s1: "set ids1 \<subseteq> {0 ..< 256 + int (Suc i)}"
      and le1: "vocab tk \<subseteq>\<^sub>m vocab tk1"
      by blast+
    from Suc.prems(3) Inr st1 have "L (Suc i) k (ids1, tk1) = Inr (ids', tk')"
      by (simp add: LS)
    from Suc.IH [OF ok1 s1 this]
    have "tokenizer_ok (Suc i + k) tk'" "set ids' \<subseteq> {0 ..< 256 + int (Suc i + k)}"
      "vocab tk1 \<subseteq>\<^sub>m vocab tk'"
      by blast+
    with le1 show ?thesis by (auto intro: map_le_trans)
  qed
qed

lemma train_step_merges:
  assumes "train_step i (ids, tk) = Inr (ids', tk')"
  shows "\<exists>p. p \<in> set (zip ids (tl ids)) \<and> set ids' \<subseteq> insert (256 + int i) (set ids)
           \<and> merges tk' = (merges tk)(p \<mapsto> 256 + int i)
           \<and> vocab_add (vocab tk) p (256 + int i) = Inr (vocab tk')"
proof -
  from train_step_Inr [OF assms] obtain p c where
    sel: "py_max snd (get_stats ids) = Inr (p, c)"
    and ids': "ids' = merge ids p (256 + int i)"
    and m: "merges tk' = (merges tk)(p \<mapsto> 256 + int i)"
    and v: "vocab_add (vocab tk) p (256 + int i) = Inr (vocab tk')"
    by blast
  from py_max_stats_select [OF sel] have "p \<in> set (zip ids (tl ids))" by blast
  moreover have "set ids' \<subseteq> insert (256 + int i) (set ids)" unfolding ids' by (rule merge_set)
  ultimately show ?thesis using m v by blast
qed

lemma vectorized_step_merges:
  assumes "vectorized_step i (ids, tk) = Inr (ids', tk')"
  shows "\<exists>p. p \<in> set (zip ids (tl ids)) \<and> set ids' \<subseteq> insert (256 + int i) (set ids)
           \<and> merges tk' = (merges tk)(p \<mapsto> 256 + int i)
           \<and> vocab_add (vocab tk) p (256 + int i) = Inr (vocab tk')"
proof -
  from vectorized_step_Inr [OF assms] obtain k where
    k: "argmax (snd (unique_counts (zip ids (tl ids)))) = Some k"
    and ids': "ids' = mask_merge ids (zip (butlast ids) (tl ids))
                      (fst (unique_counts (zip ids (tl ids))) ! k) (256 + int i)"
    and m: "merges tk' = (merges tk)(fst (unique_counts (zip ids (tl ids))) ! k \<mapsto> 256 + int i)"
    and v: "vocab_add (vocab tk) (fst (unique_counts (zip ids (tl ids))) ! k) (256 + int i)
               = Inr (vocab tk')"
    unfolding zip_butlast_tl [of ids, symmetric] by blast
  from unique_counts_select [OF k]
  have "fst (unique_counts (zip ids (tl ids))) ! k \<in> set (zip ids (tl ids))" by blast
  moreover have "set ids' \<subseteq> insert (256 + int i) (set ids)"
    unfolding ids' by (rule mask_merge_set)
  ultimately show ?thesis using m v by blast
qed

lemma uint_bytes_range: "set (map uint (bs :: byte list)) \<subseteq> {0 ..< 256 + int 0}"
proof
  fix x assume "x \<in> set (map uint bs)"
  then obtain b :: byte where "x = uint b" by auto
  moreover have "uint b < 2 ^ LENGTH(8)" by (rule uint_lt2p)
  moreover have "0 \<le> uint b" by simp
  ultimately show "x \<in> {0 ..< 256 + int 0}" by simp
qed

lemma trainer_facts:
  fixes L :: "nat \<Rightarrow> nat \<Rightarrow> int list \<times> tokenizer \<Rightarrow> error + int list \<times> tokenizer"
  assumes L0: "\<And>i st. L i 0 st = Inr st"
    and LS: "\<And>i k st. L i (Suc k) st =
               (case step i st of Inl e \<Rightarrow> Inl e | Inr st' \<Rightarrow> L (Suc i) k st')"
    and S: "\<forall>i ids tk ids' tk'. step i (ids, tk) = Inr (ids', tk') \<longrightarrow>
               (\<exists>p. p \<in> set (zip ids (tl ids)) \<and> set ids' \<subseteq> insert (256 + int i) (set ids)
                 \<and> merges tk' = (merges tk)(p \<mapsto> 256 + int i)
                 \<and> vocab_add (vocab tk) p (256 + int i) = Inr (vocab tk'))"
    and run: "\<And>s vs. run s vs =
               (if \<not> 256 \<le> vs then Inl AssertionError
                else (case utf8_encode s of
                        Inl e \<Rightarrow> Inl e
                      | Inr bs \<Rightarrow>
                          (case L 0 (nat (vs - 256))
                                  (map uint bs, \<lparr>merges = Map.empty, vocab = seed_vocab\<rparr>) of
                             Inl e \<Rightarrow> Inl e
                           | Inr st \<Rightarrow> Inr (snd st))))"
    and res: "run s vs = Inr tk"
  shows "256 \<le> vs \<and> tokenizer_ok (nat (vs - 256)) tk
     \<and> (\<forall>vs'. 256 \<le> vs' \<and> vs' \<le> vs \<longrightarrow> (\<exists>tk'. run s vs' = Inr tk' \<and> vocab tk' \<subseteq>\<^sub>m vocab tk))
     \<and> (256 < vs \<longrightarrow>
          (\<exists>p l r. merges tk p = Some (vs - 1) \<and> vocab tk (fst p) = Some l
             \<and> vocab tk (snd p) = Some r \<and> vocab tk (vs - 1) = Some (l @ r)))"
proof -
  from res have ge: "256 \<le> vs" unfolding run by (simp split: if_splits)
  from res ge obtain bs where bs: "utf8_encode s = Inr bs"
    unfolding run by (cases "utf8_encode s") simp_all
  define st0 where "st0 = (map uint bs, \<lparr>merges = Map.empty, vocab = seed_vocab\<rparr>)"
  define n where "n = nat (vs - 256)"
  have run': "run s w = (case L 0 (nat (w - 256)) st0 of Inl e \<Rightarrow> Inl e | Inr st \<Rightarrow> Inr (snd st))"
    if "256 \<le> w" for w
    unfolding run st0_def using that bs by simp
  from res ge obtain ids where fin: "L 0 n st0 = Inr (ids, tk)"
    unfolding run' [OF ge] n_def by (cases "L 0 (nat (vs - 256)) st0") auto
  have inv: "tokenizer_ok (0 + j) tk1 \<and> set ids1 \<subseteq> {0 ..< 256 + int (0 + j)}
             \<and> vocab \<lparr>merges = Map.empty, vocab = seed_vocab\<rparr> \<subseteq>\<^sub>m vocab tk1"
    if "L 0 j st0 = Inr (ids1, tk1)" for j ids1 tk1
    using that unfolding st0_def
    by (rule loop_ok [of L step, OF L0 LS S tokenizer_ok_seed uint_bytes_range])
  from inv [OF fin] have ok: "tokenizer_ok n tk" by simp
  have pre: "\<exists>tk'. run s vs' = Inr tk' \<and> vocab tk' \<subseteq>\<^sub>m vocab tk" if "256 \<le> vs' \<and> vs' \<le> vs" for vs'
  proof -
    define j where "j = nat (vs' - 256)"
    define k where "k = n - j"
    from that have "vs' - 256 \<le> vs - 256" by arith
    then have "nat (vs' - 256) \<le> nat (vs - 256)" by (rule nat_mono)
    then have n: "n = j + k" unfolding n_def j_def k_def by arith
    have "L 0 (j + k) st0 = (case L 0 j st0 of Inl e \<Rightarrow> Inl e | Inr st' \<Rightarrow> L (0 + j) k st')"
      by (rule loop_add [of L step, OF L0 LS])
    with fin n obtain ids1 tk1 where j1: "L 0 j st0 = Inr (ids1, tk1)"
      and rest: "L (0 + j) k (ids1, tk1) = Inr (ids, tk)"
      by (cases "L 0 j st0") auto
    from inv [OF j1] have "tokenizer_ok (0 + j) tk1" "set ids1 \<subseteq> {0 ..< 256 + int (0 + j)}"
      by blast+
    from loop_ok [of L step, OF L0 LS S this rest] have "vocab tk1 \<subseteq>\<^sub>m vocab tk" by blast
    moreover from that j1 have "run s vs' = Inr tk1" unfolding j_def by (simp add: run')
    ultimately show ?thesis by blast
  qed
  have last: "\<exists>p l r. merges tk p = Some (vs - 1) \<and> vocab tk (fst p) = Some l
             \<and> vocab tk (snd p) = Some r \<and> vocab tk (vs - 1) = Some (l @ r)" if "256 < vs"
  proof -
    define j where "j = nat (vs - 257)"
    from that have n: "n = j + Suc 0" and vs: "vs - 1 = 256 + int j"
      unfolding n_def j_def by arith+
    have "L 0 (j + Suc 0) st0 = (case L 0 j st0 of Inl e \<Rightarrow> Inl e | Inr st' \<Rightarrow> L (0 + j) (Suc 0) st')"
      by (rule loop_add [of L step, OF L0 LS])
    with fin n obtain ids1 tk1 where j1: "L 0 j st0 = Inr (ids1, tk1)"
      and rest: "L (0 + j) (Suc 0) (ids1, tk1) = Inr (ids, tk)"
      by (cases "L 0 j st0") auto
    from rest have st: "step j (ids1, tk1) = Inr (ids, tk)"
      by (cases "step j (ids1, tk1)") (simp_all add: LS L0)
    from inv [OF j1] have ok1: "tokenizer_ok j tk1" and s1: "set ids1 \<subseteq> {0 ..< 256 + int j}"
      by simp_all
    from S st obtain p where
      p: "p \<in> set (zip ids1 (tl ids1))"
      and i1: "set ids \<subseteq> insert (256 + int j) (set ids1)"
      and m: "merges tk = (merges tk1)(p \<mapsto> 256 + int j)"
      and v: "vocab_add (vocab tk1) p (256 + int j) = Inr (vocab tk)"
      by blast
    from step_ok [OF ok1 s1 p i1 m v] show ?thesis unfolding vs by blast
  qed
  from ge ok pre last show ?thesis unfolding n_def by blast
qed

section \<open>\<open>train_gpu\<close> against \<open>train_vectorized\<close>\<close>

lemma gpu_merges_snoc:
  "gpu_merges (xs @ [p]) = (gpu_merges xs)(p \<mapsto> int (length xs) + 256)"
  by (simp add: gpu_merges_def enumerate_append_eq)

lemma take_Suc_update:
  "i < length mp \<Longrightarrow> take (Suc i) (mp[i := p]) = take i mp @ [p]"
  by (simp add: take_Suc_conv_app_nth)

lemma gpu_vocab_loop_cong:
  "(\<And>j. i \<le> j \<Longrightarrow> j < i + k \<Longrightarrow> mp ! j = mp' ! j)
   \<Longrightarrow> gpu_vocab_loop i k mp v = gpu_vocab_loop i k mp' v"
proof (induction k arbitrary: i v)
  case 0
  show ?case by simp
next
  case (Suc k)
  have "mp ! i = mp' ! i" by (rule Suc.prems) simp_all
  moreover have "gpu_vocab_loop (Suc i) k mp w = gpu_vocab_loop (Suc i) k mp' w" for w
    by (rule Suc.IH) (simp_all add: Suc.prems)
  ultimately show ?case by (simp split: sum.splits)
qed

lemma gpu_vocab_loop_snoc:
  "gpu_vocab_loop 0 (Suc i) mp v =
     (case gpu_vocab_loop 0 i mp v of
        Inl e \<Rightarrow> Inl e
      | Inr v' \<Rightarrow> vocab_add v' (mp ! i) (256 + int i))"
proof -
  have "gpu_vocab_loop 0 (i + Suc 0) mp v =
          (case gpu_vocab_loop 0 i mp v of
             Inl e \<Rightarrow> Inl e
           | Inr v' \<Rightarrow> gpu_vocab_loop (0 + i) (Suc 0) mp v')"
    by (rule loop_add [of "\<lambda>i k v. gpu_vocab_loop i k mp v"
          "\<lambda>i v. vocab_add v (mp ! i) (256 + int i)"]) simp_all
  then show ?thesis by (simp split: sum.splits)
qed

lemma gpu_step_eq:
  "gpu_step i (ids, mp) =
     (case argmax (snd (unique_counts (zip ids (tl ids)))) of
        None \<Rightarrow> Inl IndexError
      | Some k \<Rightarrow>
          Inr (mask_merge ids (zip ids (tl ids)) (fst (unique_counts (zip ids (tl ids))) ! k)
                 (256 + int i),
               mp[i := fst (unique_counts (zip ids (tl ids))) ! k]))"
  by (simp add: gpu_step_def zip_butlast_tl Let_def add.commute split: option.splits)

lemma vectorized_step_eq:
  "vectorized_step i (ids, tk) =
     (case argmax (snd (unique_counts (zip ids (tl ids)))) of
        None \<Rightarrow> Inl ValueError
      | Some k \<Rightarrow>
          (case vocab_add (vocab tk) (fst (unique_counts (zip ids (tl ids))) ! k) (256 + int i) of
             Inl e \<Rightarrow> Inl e
           | Inr v' \<Rightarrow>
               Inr (mask_merge ids (zip ids (tl ids)) (fst (unique_counts (zip ids (tl ids))) ! k)
                      (256 + int i),
                    \<lparr>merges = (merges tk)(fst (unique_counts (zip ids (tl ids))) ! k \<mapsto> 256 + int i),
                     vocab = v'\<rparr>)))"
  by (simp add: vectorized_step_def zip_butlast_tl Let_def split: option.splits)

lemma gpu_simulates:
  assumes "tokenizer_ok i tk" and "set ids \<subseteq> {0 ..< 256 + int i}"
    and "merges tk = gpu_merges (take i mp)"
    and "gpu_vocab_loop 0 i mp seed_vocab = Inr (vocab tk)"
    and "i + k \<le> length mp"
  shows "case vectorized_loop i k (ids, tk) of
           Inl e \<Rightarrow> (\<exists>e'. gpu_loop i k (ids, mp) = Inl e')
         | Inr st' \<Rightarrow>
             (\<exists>mp'. gpu_loop i k (ids, mp) = Inr (fst st', mp') \<and> length mp' = length mp
                \<and> merges (snd st') = gpu_merges (take (i + k) mp')
                \<and> gpu_vocab_loop 0 (i + k) mp' seed_vocab = Inr (vocab (snd st')))"
  using assms
proof (induction k arbitrary: i ids tk mp)
  case 0
  then show ?case by simp
next
  case (Suc k)
  define u where "u = fst (unique_counts (zip ids (tl ids)))"
  show ?case
  proof (cases "argmax (snd (unique_counts (zip ids (tl ids))))")
    case None
    then have "vectorized_step i (ids, tk) = Inl ValueError" "gpu_step i (ids, mp) = Inl IndexError"
      by (simp_all add: vectorized_step_eq gpu_step_eq)
    then show ?thesis by simp
  next
    case (Some a)
    define p where "p = u ! a"
    from unique_counts_select [OF Some] have pm: "p \<in> set (zip ids (tl ids))"
      unfolding p_def u_def by blast
    from step_preserves [OF Suc.prems(1) Suc.prems(2) pm] obtain l r where
      add: "vocab_add (vocab tk) p (256 + int i) = Inr ((vocab tk)(256 + int i \<mapsto> l @ r))"
      by blast
    define tk1 where
      "tk1 = \<lparr>merges = (merges tk)(p \<mapsto> 256 + int i), vocab = (vocab tk)(256 + int i \<mapsto> l @ r)\<rparr>"
    define ids1 where "ids1 = mask_merge ids (zip ids (tl ids)) p (256 + int i)"
    define mp1 where "mp1 = mp[i := p]"
    have vs: "vectorized_step i (ids, tk) = Inr (ids1, tk1)"
      using Some add by (simp add: vectorized_step_eq p_def u_def tk1_def ids1_def)
    have gs: "gpu_step i (ids, mp) = Inr (ids1, mp1)"
      using Some by (simp add: gpu_step_eq p_def u_def ids1_def mp1_def)
    have i1: "set ids1 \<subseteq> insert (256 + int i) (set ids)"
      unfolding ids1_def by (rule mask_merge_set)
    have m1: "merges tk1 = (merges tk)(p \<mapsto> 256 + int i)" by (simp add: tk1_def)
    have v1: "vocab_add (vocab tk) p (256 + int i) = Inr (vocab tk1)"
      using add by (simp add: tk1_def)
    from step_ok [OF Suc.prems(1) Suc.prems(2) pm i1 m1 v1]
    have ok1: "tokenizer_ok (Suc i) tk1" and s1: "set ids1 \<subseteq> {0 ..< 256 + int (Suc i)}"
      by blast+
    from Suc.prems(5) have il: "i < length mp" by simp
    have "take (Suc i) mp1 = take i mp @ [p]"
      unfolding mp1_def using il by (rule take_Suc_update)
    moreover from il have "length (take i mp) = i" by simp
    ultimately have "gpu_merges (take (Suc i) mp1) = (gpu_merges (take i mp))(p \<mapsto> int i + 256)"
      by (simp add: gpu_merges_snoc)
    with m1 Suc.prems(3) have r1: "merges tk1 = gpu_merges (take (Suc i) mp1)"
      by (simp add: add.commute)
    have "gpu_vocab_loop 0 i mp1 seed_vocab = gpu_vocab_loop 0 i mp seed_vocab"
      by (rule gpu_vocab_loop_cong) (simp add: mp1_def)
    moreover have "mp1 ! i = p" unfolding mp1_def using il by simp
    ultimately have r2: "gpu_vocab_loop 0 (Suc i) mp1 seed_vocab = Inr (vocab tk1)"
      using Suc.prems(4) v1 by (simp add: gpu_vocab_loop_snoc del: gpu_vocab_loop.simps)
    from Suc.prems(5) have r3: "Suc i + k \<le> length mp1" by (simp add: mp1_def)
    have len1: "length mp1 = length mp" by (simp add: mp1_def)
    have eqv: "vectorized_loop i (Suc k) (ids, tk) = vectorized_loop (Suc i) k (ids1, tk1)"
      using vs by simp
    have eqg: "gpu_loop i (Suc k) (ids, mp) = gpu_loop (Suc i) k (ids1, mp1)"
      using gs by simp
    have idx: "i + Suc k = Suc i + k" by simp
    show ?thesis
      unfolding eqv eqg idx using Suc.IH [OF ok1 s1 r1 r2 r3] unfolding len1 .
  qed
qed

lemma gpu_merges_Nil: "gpu_merges [] = Map.empty"
  by (simp add: gpu_merges_def)

lemma train_gpu_vectorized:
  "(train_gpu s vocab_size = Inr tk) = (train_vectorized s vocab_size = Inr tk)"
proof (cases "256 \<le> vocab_size")
  case False
  then show ?thesis by (simp add: train_gpu_def train_vectorized_def)
next
  case True
  show ?thesis
  proof (cases "utf8_encode s")
    case (Inl e)
    with True show ?thesis by (simp add: train_gpu_def train_vectorized_def)
  next
    case (Inr bs)
    define n where "n = nat (vocab_size - 256)"
    define tk0 where "tk0 = \<lparr>merges = Map.empty, vocab = seed_vocab\<rparr>"
    define mp0 :: "pair list" where "mp0 = replicate n (0, 0)"
    have tv: "train_vectorized s vocab_size =
                (case vectorized_loop 0 n (map uint bs, tk0) of Inl e \<Rightarrow> Inl e | Inr st \<Rightarrow> Inr (snd st))"
      using True Inr unfolding train_vectorized_def n_def tk0_def by simp
    have tg: "train_gpu s vocab_size =
                (case gpu_loop 0 n (map uint bs, mp0) of
                   Inl e \<Rightarrow> Inl e
                 | Inr st \<Rightarrow>
                     (case gpu_vocab_loop 0 n (snd st) seed_vocab of
                        Inl e \<Rightarrow> Inl e
                      | Inr v \<Rightarrow> Inr \<lparr>merges = gpu_merges (snd st), vocab = v\<rparr>))"
      using True Inr unfolding train_gpu_def n_def mp0_def Let_def by simp
    have ok0: "tokenizer_ok 0 tk0" unfolding tk0_def by (rule tokenizer_ok_seed)
    have m0: "merges tk0 = gpu_merges (take 0 mp0)" by (simp add: tk0_def gpu_merges_Nil)
    have v0: "gpu_vocab_loop 0 0 mp0 seed_vocab = Inr (vocab tk0)" by (simp add: tk0_def)
    have l0: "0 + n \<le> length mp0" by (simp add: mp0_def)
    note sim = gpu_simulates [OF ok0 uint_bytes_range m0 v0 l0, of bs]
    show ?thesis
    proof (cases "vectorized_loop 0 n (map uint bs, tk0)")
      case (Inl e)
      with sim obtain e' where "gpu_loop 0 n (map uint bs, mp0) = Inl e'" by auto
      with Inl show ?thesis by (simp add: tv tg)
    next
      case r: (Inr st')
      with sim obtain mp' where g: "gpu_loop 0 n (map uint bs, mp0) = Inr (fst st', mp')"
        and len: "length mp' = length mp0"
        and m: "merges (snd st') = gpu_merges (take (0 + n) mp')"
        and v: "gpu_vocab_loop 0 (0 + n) mp' seed_vocab = Inr (vocab (snd st'))"
        by auto
      from len have "take (0 + n) mp' = mp'" by (simp add: mp0_def)
      with m have m': "gpu_merges mp' = merges (snd st')" by simp
      from v have v': "gpu_vocab_loop 0 n mp' seed_vocab = Inr (vocab (snd st'))" by simp
      have "train_gpu s vocab_size = Inr (snd st')"
        unfolding tg g by (simp add: m' v')
      moreover have "train_vectorized s vocab_size = Inr (snd st')"
        unfolding tv r by simp
      ultimately show ?thesis by simp
    qed
  qed
qed

lemma utf8_encode_cab: "utf8_encode [99, 97, 98] = Inr [99, 97, 98]"
  by (simp add: utf8_encode_def utf8_encode_cp_def)

lemma sort_cab: "sort [(99, 97), (97, 98) :: pair] = [(97, 98), (99, 97)]"
  by (simp add: less_eq_prod_def)

lemma argmax_tie: "argmax [Suc 0, Suc 0] = Some 0"
  by (simp add: argmax_def upt_rec)

lemma train_cab:
  "train [99, 97, 98] 257
     = Inr \<lparr>merges = [(99, 97) \<mapsto> 256], vocab = seed_vocab(256 \<mapsto> [99, 97])\<rparr>"
proof -
  have n: "nat (257 - 256) = Suc 0" by simp
  show ?thesis
    unfolding train_def utf8_encode_cab n
    by (simp add: train_step_def get_stats_def py_max_def vocab_add_def seed_vocab_def Let_def)
qed

lemma train_vectorized_cab:
  "train_vectorized [99, 97, 98] 257
     = Inr \<lparr>merges = [(97, 98) \<mapsto> 256], vocab = seed_vocab(256 \<mapsto> [97, 98])\<rparr>"
proof -
  have n: "nat (257 - 256) = Suc 0" by simp
  show ?thesis
    unfolding train_vectorized_def utf8_encode_cab n
    by (simp add: vectorized_step_def unique_counts_def sort_cab argmax_tie mask_merge_def
        vocab_add_def seed_vocab_def Let_def)
qed

text \<open>
  C1, as the claim states it, on the text \<open>cab\<close> with \<open>vocab_size = 257\<close>: all three
  runs complete; \<open>train\<close> learns the merge of (99, 97), the other two that of (97, 98).
\<close>

theorem strategies_differ:
  "train [99, 97, 98] 257
     = Inr \<lparr>merges = [(99, 97) \<mapsto> 256], vocab = seed_vocab(256 \<mapsto> [99, 97])\<rparr>
   \<and> train_vectorized [99, 97, 98] 257
     = Inr \<lparr>merges = [(97, 98) \<mapsto> 256], vocab = seed_vocab(256 \<mapsto> [97, 98])\<rparr>
   \<and> train_gpu [99, 97, 98] 257
     = Inr \<lparr>merges = [(97, 98) \<mapsto> 256], vocab = seed_vocab(256 \<mapsto> [97, 98])\<rparr>
   \<and> merges \<lparr>merges = [(99, 97) \<mapsto> 256], vocab = seed_vocab(256 \<mapsto> [99, 97])\<rparr> (99, 97)
       = Some 256
   \<and> merges \<lparr>merges = [(97, 98) \<mapsto> 256], vocab = seed_vocab(256 \<mapsto> [97, 98])\<rparr> (99, 97)
       = None"
  using train_cab train_vectorized_cab
    train_gpu_vectorized [of "[99, 97, 98]" 257
      "\<lparr>merges = [(97, 98) \<mapsto> 256], vocab = seed_vocab(256 \<mapsto> [97, 98])\<rparr>"]
  by simp

section \<open>The vocabulary after training\<close>

lemma growth_facts_train: "growth_facts train"
  unfolding growth_facts_def
proof (intro allI impI)
  fix s vs tk assume "train s vs = Inr tk"
  then show "256 \<le> vs \<and> tokenizer_ok (nat (vs - 256)) tk
        \<and> (\<forall>vs'. 256 \<le> vs' \<and> vs' \<le> vs \<longrightarrow>
              (\<exists>tk'. train s vs' = Inr tk' \<and> vocab tk' \<subseteq>\<^sub>m vocab tk))
        \<and> (256 < vs \<longrightarrow>
              (\<exists>p l r. merges tk p = Some (vs - 1) \<and> vocab tk (fst p) = Some l
                 \<and> vocab tk (snd p) = Some r \<and> vocab tk (vs - 1) = Some (l @ r)))"
  proof (rule trainer_facts [of train_loop train_step train, rotated 4])
    show "train_loop i 0 st = Inr st" for i st by simp
    show "train_loop i (Suc k) st =
            (case train_step i st of Inl e \<Rightarrow> Inl e | Inr st' \<Rightarrow> train_loop (Suc i) k st')"
      for i k st by simp
    show "\<forall>i ids tk ids' tk'. train_step i (ids, tk) = Inr (ids', tk') \<longrightarrow>
            (\<exists>p. p \<in> set (zip ids (tl ids)) \<and> set ids' \<subseteq> insert (256 + int i) (set ids)
               \<and> merges tk' = (merges tk)(p \<mapsto> 256 + int i)
               \<and> vocab_add (vocab tk) p (256 + int i) = Inr (vocab tk'))"
      using train_step_merges by blast
    show "train s vs =
            (if \<not> 256 \<le> vs then Inl AssertionError
             else (case utf8_encode s of
                     Inl e \<Rightarrow> Inl e
                   | Inr bs \<Rightarrow>
                       (case train_loop 0 (nat (vs - 256))
                               (map uint bs, \<lparr>merges = Map.empty, vocab = seed_vocab\<rparr>) of
                          Inl e \<Rightarrow> Inl e
                        | Inr st \<Rightarrow> Inr (snd st))))"
      for s vs by (rule train_def)
  qed
qed

lemma growth_facts_vectorized: "growth_facts train_vectorized"
  unfolding growth_facts_def
proof (intro allI impI)
  fix s vs tk assume "train_vectorized s vs = Inr tk"
  then show "256 \<le> vs \<and> tokenizer_ok (nat (vs - 256)) tk
        \<and> (\<forall>vs'. 256 \<le> vs' \<and> vs' \<le> vs \<longrightarrow>
              (\<exists>tk'. train_vectorized s vs' = Inr tk' \<and> vocab tk' \<subseteq>\<^sub>m vocab tk))
        \<and> (256 < vs \<longrightarrow>
              (\<exists>p l r. merges tk p = Some (vs - 1) \<and> vocab tk (fst p) = Some l
                 \<and> vocab tk (snd p) = Some r \<and> vocab tk (vs - 1) = Some (l @ r)))"
  proof (rule trainer_facts [of vectorized_loop vectorized_step train_vectorized, rotated 4])
    show "vectorized_loop i 0 st = Inr st" for i st by simp
    show "vectorized_loop i (Suc k) st =
            (case vectorized_step i st of Inl e \<Rightarrow> Inl e | Inr st' \<Rightarrow> vectorized_loop (Suc i) k st')"
      for i k st by simp
    show "\<forall>i ids tk ids' tk'. vectorized_step i (ids, tk) = Inr (ids', tk') \<longrightarrow>
            (\<exists>p. p \<in> set (zip ids (tl ids)) \<and> set ids' \<subseteq> insert (256 + int i) (set ids)
               \<and> merges tk' = (merges tk)(p \<mapsto> 256 + int i)
               \<and> vocab_add (vocab tk) p (256 + int i) = Inr (vocab tk'))"
      using vectorized_step_merges by blast
    show "train_vectorized s vs =
            (if \<not> 256 \<le> vs then Inl AssertionError
             else (case utf8_encode s of
                     Inl e \<Rightarrow> Inl e
                   | Inr bs \<Rightarrow>
                       (case vectorized_loop 0 (nat (vs - 256))
                               (map uint bs, \<lparr>merges = Map.empty, vocab = seed_vocab\<rparr>) of
                          Inl e \<Rightarrow> Inl e
                        | Inr st \<Rightarrow> Inr (snd st))))"
      for s vs by (rule train_vectorized_def)
  qed
qed

lemma growth_facts_gpu: "growth_facts train_gpu"
  using growth_facts_vectorized unfolding growth_facts_def train_gpu_vectorized .

lemma map_le_SomeD: "m \<subseteq>\<^sub>m m' \<Longrightarrow> m k = Some v \<Longrightarrow> m' k = Some v"
  by (metis domI map_le_def)

lemma growth_from_facts:
  assumes gf: "growth_facts run" and res: "run s vs = Inr tk"
  shows "card (dom (vocab tk)) = 256 + nat (vs - 256)
       \<and> (\<forall>idx. 0 \<le> idx \<and> idx < 256 \<longrightarrow> vocab tk idx = Some [word_of_int idx])
       \<and> (\<forall>idx. 256 \<le> idx \<and> idx < vs \<longrightarrow>
             (\<exists>L R l r tk'. run s (idx + 1) = Inr tk' \<and> merges tk' (L, R) = Some idx
                \<and> vocab tk' \<subseteq>\<^sub>m vocab tk
                \<and> vocab tk L = Some l \<and> vocab tk R = Some r \<and> vocab tk idx = Some (l @ r)))
       \<and> (\<forall>L R idx. merges tk (L, R) = Some idx \<longrightarrow>
             (\<exists>l r. vocab tk L = Some l \<and> vocab tk R = Some r \<and> vocab tk idx = Some (l @ r)))
       \<and> (\<forall>vs'. 256 \<le> vs' \<and> vs' \<le> vs \<longrightarrow>
             (\<exists>tk'. run s vs' = Inr tk' \<and> vocab tk' \<subseteq>\<^sub>m vocab tk))"
proof -
  from gf res have ge: "256 \<le> vs" and ok: "tokenizer_ok (nat (vs - 256)) tk"
    and pre: "\<forall>vs'. 256 \<le> vs' \<and> vs' \<le> vs \<longrightarrow>
              (\<exists>tk'. run s vs' = Inr tk' \<and> vocab tk' \<subseteq>\<^sub>m vocab tk)"
    unfolding growth_facts_def by blast+
  from ok have d: "dom (vocab tk) = {0 ..< 256 + int (nat (vs - 256))}"
    and seed: "\<forall>b. 0 \<le> b \<and> b < 256 \<longrightarrow> vocab tk b = Some [word_of_int b]"
    and mg: "\<forall>p idx. merges tk p = Some idx \<longrightarrow>
            256 \<le> idx \<and> idx < 256 + int (nat (vs - 256))
            \<and> (\<exists>l r. vocab tk (fst p) = Some l \<and> vocab tk (snd p) = Some r
                  \<and> vocab tk idx = Some (l @ r))"
    unfolding tokenizer_ok_def by blast+
  have 1: "card (dom (vocab tk)) = 256 + nat (vs - 256)"
    unfolding d using ge by simp
  have 3: "\<exists>L R l r tk'. run s (idx + 1) = Inr tk' \<and> merges tk' (L, R) = Some idx
                \<and> vocab tk' \<subseteq>\<^sub>m vocab tk
                \<and> vocab tk L = Some l \<and> vocab tk R = Some r \<and> vocab tk idx = Some (l @ r)"
    if "256 \<le> idx \<and> idx < vs" for idx
  proof -
    from that have "256 \<le> idx + 1 \<and> idx + 1 \<le> vs" by simp
    with pre obtain tk' where r': "run s (idx + 1) = Inr tk'" and le: "vocab tk' \<subseteq>\<^sub>m vocab tk"
      by blast
    from that have "256 < idx + 1" by simp
    with gf r' obtain p l r where "merges tk' p = Some (idx + 1 - 1)"
      "vocab tk' (fst p) = Some l" "vocab tk' (snd p) = Some r"
      "vocab tk' (idx + 1 - 1) = Some (l @ r)"
      unfolding growth_facts_def by blast
    then have "merges tk' (fst p, snd p) = Some idx" "vocab tk (fst p) = Some l"
      "vocab tk (snd p) = Some r" "vocab tk idx = Some (l @ r)"
      using map_le_SomeD [OF le] by simp_all
    with r' le show ?thesis by blast
  qed
  have 4: "\<exists>l r. vocab tk L = Some l \<and> vocab tk R = Some r \<and> vocab tk idx = Some (l @ r)"
    if "merges tk (L, R) = Some idx" for L R idx
    using mg that by fastforce
  from 1 seed 3 4 pre show ?thesis by blast
qed

text \<open>
  C8. Let \<open>run\<close> be one of the three training functions and let it return a tokenizer
  for \<open>vocab_size\<close>, that is after \<open>vocab_size - 256\<close> merges. The vocabulary then has
  \<open>256 + (vocab_size - 256)\<close> entries. An id below 256 stands for its own byte. Every id
  from 256 on was minted for a pair \<open>(L, R)\<close>, the last merge of the run that stops at
  that id, and stands for the bytes of \<open>L\<close> followed by those of \<open>R\<close>; the same holds
  of every entry of the final merge table. The vocabulary of every shorter run is part
  of the final one: no later iteration overwrites an entry.
\<close>

theorem vocabulary_growth:
  assumes "run = train \<or> run = train_vectorized \<or> run = train_gpu"
    and "run s vocab_size = Inr tk"
  shows "card (dom (vocab tk)) = 256 + nat (vocab_size - 256)
       \<and> (\<forall>idx. 0 \<le> idx \<and> idx < 256 \<longrightarrow> vocab tk idx = Some [word_of_int idx])
       \<and> (\<forall>idx. 256 \<le> idx \<and> idx < vocab_size \<longrightarrow>
             (\<exists>L R l r tk'. run s (idx + 1) = Inr tk' \<and> merges tk' (L, R) = Some idx
                \<and> vocab tk' \<subseteq>\<^sub>m vocab tk
                \<and> vocab tk L = Some l \<and> vocab tk R = Some r \<and> vocab tk idx = Some (l @ r)))
       \<and> (\<forall>L R idx. merges tk (L, R) = Some idx \<longrightarrow>
             (\<exists>l r. vocab tk L = Some l \<and> vocab tk R = Some r \<and> vocab tk idx = Some (l @ r)))
       \<and> (\<forall>vs'. 256 \<le> vs' \<and> vs' \<le> vocab_size \<longrightarrow>
             (\<exists>tk'. run s vs' = Inr tk' \<and> vocab tk' \<subseteq>\<^sub>m vocab tk))"
proof -
  from assms(1) have "growth_facts run"
    using growth_facts_train growth_facts_vectorized growth_facts_gpu by blast
  from growth_from_facts [OF this assms(2)] show ?thesis .
qed

theorem vocabulary_growth_witness:
  "train [97, 97, 97] 258
     = Inr \<lparr>merges = [(97, 97) \<mapsto> 256, (256, 97) \<mapsto> 257],
            vocab = seed_vocab(256 \<mapsto> [97, 97], 257 \<mapsto> [97, 97, 97])\<rparr>
   \<and> card (dom (seed_vocab(256 \<mapsto> [97, 97], 257 \<mapsto> [97, 97, 97]))) = 256 + nat (258 - 256)
   \<and> (\<exists>L R l r tk'. train [97, 97, 97] (257 + 1) = Inr tk' \<and> merges tk' (L, R) = Some 257
         \<and> vocab tk' \<subseteq>\<^sub>m seed_vocab(256 \<mapsto> [97, 97], 257 \<mapsto> [97, 97, 97])
         \<and> (seed_vocab(256 \<mapsto> [97, 97], 257 \<mapsto> [97, 97, 97])) L = Some l
         \<and> (seed_vocab(256 \<mapsto> [97, 97], 257 \<mapsto> [97, 97, 97])) R = Some r
         \<and> (seed_vocab(256 \<mapsto> [97, 97], 257 \<mapsto> [97, 97, 97])) 257 = Some (l @ r))
   \<and> (\<exists>tk'. train [97, 97, 97] 257 = Inr tk'
         \<and> vocab tk' \<subseteq>\<^sub>m seed_vocab(256 \<mapsto> [97, 97], 257 \<mapsto> [97, 97, 97]))"
proof -
  define tk where "tk = \<lparr>merges = [(97, 97) \<mapsto> 256, (256, 97) \<mapsto> 257],
            vocab = seed_vocab(256 \<mapsto> [97, 97], 257 \<mapsto> [97, 97, 97])\<rparr>"
  have v: "vocab tk = seed_vocab(256 \<mapsto> [97, 97], 257 \<mapsto> [97, 97, 97])" by (simp add: tk_def)
  have t: "train [97, 97, 97] 258 = Inr tk" unfolding tk_def by (rule train_aaa)
  have r: "(256 :: int) \<le> 257 \<and> (257 :: int) < 258" "(256 :: int) \<le> 257 \<and> (257 :: int) \<le> 258"
    by simp_all
  note g = vocabulary_growth [of train "[97, 97, 97]" 258 tk, OF _ t, unfolded v]
  have g': "train = train \<or> train = train_vectorized \<or> train = train_gpu" by simp
  from g [OF g'] r t show ?thesis unfolding tk_def by blast
qed

section \<open>What \<open>encode\<close> merges and where it stops\<close>

lemma py_min_rank_best:
  assumes "py_min rank_less key keys = Inr p" and "q \<in> set keys"
  shows "\<not> rank_less (key q) (key p)"
proof -
  from py_min_rank [OF assms(1)] obtain ys zs where
    sp: "keys = ys @ p # zs"
    and before: "\<forall>y\<in>set ys. rank_less (key p) (key y)"
    and after: "\<forall>z\<in>set zs. \<not> rank_less (key z) (key p)"
    by blast
  from assms(2) have "q \<in> set ys \<or> q = p \<or> q \<in> set zs" unfolding sp by auto
  then show ?thesis
  proof (elim disjE)
    assume "q \<in> set ys"
    with before have "rank_less (key p) (key q)" by blast
    then show ?thesis by (cases "key p"; cases "key q") auto
  next
    assume "q = p"
    then show ?thesis by (cases "key p") auto
  next
    assume "q \<in> set zs"
    with after show ?thesis by blast
  qed
qed

lemma zip_tl_short: "length ids < 2 \<Longrightarrow> zip ids (tl ids) = []"
  by (cases ids; cases "tl ids") auto

lemma encode_loop_final:
  "encode_loop m ids = Some (Inr out) \<Longrightarrow> \<forall>q\<in>set (zip out (tl out)). m q = None"
proof (induction "length ids" arbitrary: ids rule: less_induct)
  case less
  show ?case
  proof (cases "2 \<le> length ids")
    case False
    with less.prems have "out = ids" by (simp add: encode_loop_short)
    with False show ?thesis by (simp add: zip_tl_short)
  next
    case True
    then obtain p where p: "py_min rank_less m (map fst (get_stats ids)) = Inr p"
      using py_min_nonempty [OF get_stats_nonempty] by blast
    then have "p \<in> set (map fst (get_stats ids))" by (rule py_min_mem)
    then have mem: "p \<in> set (zip ids (tl ids))" by (simp only: get_stats_keys)
    show ?thesis
    proof (cases "m p")
      case None
      with True p less.prems have out: "out = ids" by (simp add: encode_loop_stop)
      have "m q = None" if "q \<in> set (zip ids (tl ids))" for q
      proof -
        from that have "q \<in> set (map fst (get_stats ids))" by (simp only: get_stats_keys)
        from py_min_rank_best [OF p this] None show ?thesis by (cases "m q") auto
      qed
      with out show ?thesis by blast
    next
      case (Some idx)
      from mem have lt: "length (merge ids p idx) < length ids" by (rule merge_length_less)
      from True p Some have "encode_loop m ids = encode_loop m (merge ids p idx)"
        by (rule encode_loop_go)
      with less.prems have "encode_loop m (merge ids p idx) = Some (Inr out)" by simp
      from less.hyps [OF lt this] show ?thesis .
    qed
  qed
qed

lemma encode_eq_loop:
  "utf8_encode s = Inr bs \<Longrightarrow> encode tk s = encode_loop (merges tk) (map uint bs)"
  by (simp add: encode_def)

lemma encode_aaa:
  "encode \<lparr>merges = [(97, 97) \<mapsto> 256, (256, 97) \<mapsto> 257], vocab = v\<rparr> [97, 97, 97]
     = Some (Inr [257])"
proof -
  let ?m = "[(97, 97) \<mapsto> 256, (256, 97) \<mapsto> (257 :: int)]"
  have 1: "encode_loop ?m [97, 97, 97] = encode_loop ?m (merge [97, 97, 97] (97, 97) 256)"
    by (rule encode_loop_go) (simp_all add: py_min_def get_stats_def)
  have 2: "encode_loop ?m [256, 97] = encode_loop ?m (merge [256, 97] (256, 97) 257)"
    by (rule encode_loop_go) (simp_all add: py_min_def get_stats_def)
  have 3: "encode_loop ?m [257] = Some (Inr [257])"
    by (rule encode_loop_short) simp
  from 1 2 3 show ?thesis
    by (simp add: encode_def utf8_encode_def utf8_encode_cp_def)
qed

text \<open>
  C6. \<open>encode\<close> runs the loop on the byte values of the text. On a text of at least two
  bytes: if no adjacent pair of byte values is a key of the merge table, \<open>encode\<close>
  returns the byte values; otherwise the first pass picks an adjacent pair that is a key
  and whose id is the smallest among the ids of the adjacent pairs that are keys, and
  \<open>encode\<close> returns what the loop returns on the sequence merged for that pair and id.
  Every later pass, on the sequence \<open>ids\<close> it finds, does the same. The loop stops
  exactly when no adjacent pair is a key (or fewer than two tokens are left): no adjacent
  pair of the sequence that \<open>encode\<close> returns is a key of the merge table.
\<close>

theorem encode_selects_lowest_id:
  "(utf8_encode s = Inr bs \<and> 2 \<le> length bs
      \<and> (\<forall>q\<in>set (zip (map uint bs) (tl (map uint bs))). merges tk q = None)
      \<longrightarrow> encode tk s = Some (Inr (map uint bs)))
   \<and> (utf8_encode s = Inr bs \<and> 2 \<le> length bs
      \<and> (\<exists>q\<in>set (zip (map uint bs) (tl (map uint bs))). merges tk q \<noteq> None)
      \<longrightarrow> (\<exists>p idx. p \<in> set (zip (map uint bs) (tl (map uint bs))) \<and> merges tk p = Some idx
            \<and> (\<forall>q\<in>set (zip (map uint bs) (tl (map uint bs))).
                  \<forall>j. merges tk q = Some j \<longrightarrow> idx \<le> j)
            \<and> encode tk s = encode_loop (merges tk) (merge (map uint bs) p idx)))
   \<and> (utf8_encode s = Inr bs \<longrightarrow>
        (\<exists>out. encode tk s = Some (Inr out)
           \<and> (\<forall>q\<in>set (zip out (tl out)). merges tk q = None)))
   \<and> (2 \<le> length ids \<and> (\<forall>q\<in>set (zip ids (tl ids)). merges tk q = None)
      \<longrightarrow> encode_loop (merges tk) ids = Some (Inr ids))
   \<and> (2 \<le> length ids \<and> (\<exists>q\<in>set (zip ids (tl ids)). merges tk q \<noteq> None)
      \<longrightarrow> (\<exists>p idx. p \<in> set (zip ids (tl ids)) \<and> merges tk p = Some idx
            \<and> (\<forall>q\<in>set (zip ids (tl ids)). \<forall>j. merges tk q = Some j \<longrightarrow> idx \<le> j)
            \<and> encode_loop (merges tk) ids = encode_loop (merges tk) (merge ids p idx)))
   \<and> (length ids < 2 \<longrightarrow> encode_loop (merges tk) ids = Some (Inr ids))"
proof (intro conjI impI)
  assume a: "utf8_encode s = Inr bs \<and> 2 \<le> length bs
      \<and> (\<forall>q\<in>set (zip (map uint bs) (tl (map uint bs))). merges tk q = None)"
  then have "2 \<le> length (map uint bs)" by simp
  with a encode_loop_pass [of "map uint bs" "merges tk"]
  have "encode_loop (merges tk) (map uint bs) = Some (Inr (map uint bs))" by blast
  with a show "encode tk s = Some (Inr (map uint bs))" by (simp add: encode_eq_loop)
next
  assume a: "utf8_encode s = Inr bs \<and> 2 \<le> length bs
      \<and> (\<exists>q\<in>set (zip (map uint bs) (tl (map uint bs))). merges tk q \<noteq> None)"
  then have "2 \<le> length (map uint bs)" by simp
  with a encode_loop_pass [of "map uint bs" "merges tk"]
  have "\<exists>p idx. p \<in> set (zip (map uint bs) (tl (map uint bs))) \<and> merges tk p = Some idx
            \<and> (\<forall>q\<in>set (zip (map uint bs) (tl (map uint bs))).
                  \<forall>j. merges tk q = Some j \<longrightarrow> idx \<le> j)
            \<and> encode_loop (merges tk) (map uint bs)
                = encode_loop (merges tk) (merge (map uint bs) p idx)"
    by blast
  moreover from a have "encode tk s = encode_loop (merges tk) (map uint bs)"
    by (simp add: encode_eq_loop)
  ultimately show "\<exists>p idx. p \<in> set (zip (map uint bs) (tl (map uint bs))) \<and> merges tk p = Some idx
            \<and> (\<forall>q\<in>set (zip (map uint bs) (tl (map uint bs))).
                  \<forall>j. merges tk q = Some j \<longrightarrow> idx \<le> j)
            \<and> encode tk s = encode_loop (merges tk) (merge (map uint bs) p idx)"
    by simp
next
  assume a: "utf8_encode s = Inr bs"
  from encode_loop_returns [of "merges tk" "map uint bs"] obtain out where
    out: "encode_loop (merges tk) (map uint bs) = Some (Inr out)" by blast
  from encode_loop_final [OF out] a out
  show "\<exists>out. encode tk s = Some (Inr out) \<and> (\<forall>q\<in>set (zip out (tl out)). merges tk q = None)"
    by (simp add: encode_eq_loop)
next
  assume "2 \<le> length ids \<and> (\<forall>q\<in>set (zip ids (tl ids)). merges tk q = None)"
  with encode_loop_pass [of ids "merges tk"]
  show "encode_loop (merges tk) ids = Some (Inr ids)" by blast
next
  assume "2 \<le> length ids \<and> (\<exists>q\<in>set (zip ids (tl ids)). merges tk q \<noteq> None)"
  with encode_loop_pass [of ids "merges tk"]
  show "\<exists>p idx. p \<in> set (zip ids (tl ids)) \<and> merges tk p = Some idx
            \<and> (\<forall>q\<in>set (zip ids (tl ids)). \<forall>j. merges tk q = Some j \<longrightarrow> idx \<le> j)
            \<and> encode_loop (merges tk) ids = encode_loop (merges tk) (merge ids p idx)"
    by blast
next
  assume "length ids < 2"
  then show "encode_loop (merges tk) ids = Some (Inr ids)" by (simp add: encode_loop_short)
qed


theorem encode_selects_lowest_id_witness:
  "utf8_encode [97, 97, 97] = Inr [97, 97, 97] \<and> 2 \<le> length [97, 97, 97 :: byte]
   \<and> (\<exists>q\<in>set (zip (map uint [97, 97, 97 :: byte]) (tl (map uint [97, 97, 97 :: byte]))). merges \<lparr>merges = [(97, 97) \<mapsto> 256, (256, 97) \<mapsto> 257], vocab = seed_vocab\<rparr> q \<noteq> None)
   \<and> (\<exists>p idx. p \<in> set (zip (map uint [97, 97, 97 :: byte]) (tl (map uint [97, 97, 97 :: byte]))) \<and> merges \<lparr>merges = [(97, 97) \<mapsto> 256, (256, 97) \<mapsto> 257], vocab = seed_vocab\<rparr> p = Some idx
         \<and> (\<forall>q\<in>set (zip (map uint [97, 97, 97 :: byte]) (tl (map uint [97, 97, 97 :: byte]))).
               \<forall>j. merges \<lparr>merges = [(97, 97) \<mapsto> 256, (256, 97) \<mapsto> 257], vocab = seed_vocab\<rparr> q = Some j \<longrightarrow> idx \<le> j)
         \<and> encode \<lparr>merges = [(97, 97) \<mapsto> 256, (256, 97) \<mapsto> 257], vocab = seed_vocab\<rparr> [97, 97, 97]
             = encode_loop (merges \<lparr>merges = [(97, 97) \<mapsto> 256, (256, 97) \<mapsto> 257], vocab = seed_vocab\<rparr>) (merge (map uint [97, 97, 97 :: byte]) p idx))
   \<and> (\<exists>out. encode \<lparr>merges = [(97, 97) \<mapsto> 256, (256, 97) \<mapsto> 257], vocab = seed_vocab\<rparr> [97, 97, 97] = Some (Inr out)
         \<and> (\<forall>q\<in>set (zip out (tl out)). merges \<lparr>merges = [(97, 97) \<mapsto> 256, (256, 97) \<mapsto> 257], vocab = seed_vocab\<rparr> q = None))
   \<and> encode \<lparr>merges = [(97, 97) \<mapsto> 256, (256, 97) \<mapsto> 257], vocab = seed_vocab\<rparr> [97, 97, 97] = Some (Inr [257])
   \<and> merge (map uint [97, 97, 97 :: byte]) (97, 97) 256 = [256, 97]"
proof -
  have e: "utf8_encode [97, 97, 97] = Inr [97, 97, 97]" by (rule utf8_encode_aaa)
  have l: "2 \<le> length [97, 97, 97 :: byte]" by simp
  have ex: "(\<exists>q\<in>set (zip (map uint [97, 97, 97 :: byte]) (tl (map uint [97, 97, 97 :: byte]))). merges \<lparr>merges = [(97, 97) \<mapsto> 256, (256, 97) \<mapsto> 257], vocab = seed_vocab\<rparr> q \<noteq> None)"
    by (rule bexI [of _ "(97, 97)"]) simp_all
  note th = encode_selects_lowest_id [of "[97, 97, 97]" "[97, 97, 97]" "\<lparr>merges = [(97, 97) \<mapsto> 256, (256, 97) \<mapsto> 257], vocab = seed_vocab\<rparr>" "[256, 97]"]
  from th e l ex have c1: "(\<exists>p idx. p \<in> set (zip (map uint [97, 97, 97 :: byte]) (tl (map uint [97, 97, 97 :: byte]))) \<and> merges \<lparr>merges = [(97, 97) \<mapsto> 256, (256, 97) \<mapsto> 257], vocab = seed_vocab\<rparr> p = Some idx
         \<and> (\<forall>q\<in>set (zip (map uint [97, 97, 97 :: byte]) (tl (map uint [97, 97, 97 :: byte]))).
               \<forall>j. merges \<lparr>merges = [(97, 97) \<mapsto> 256, (256, 97) \<mapsto> 257], vocab = seed_vocab\<rparr> q = Some j \<longrightarrow> idx \<le> j)
         \<and> encode \<lparr>merges = [(97, 97) \<mapsto> 256, (256, 97) \<mapsto> 257], vocab = seed_vocab\<rparr> [97, 97, 97]
             = encode_loop (merges \<lparr>merges = [(97, 97) \<mapsto> 256, (256, 97) \<mapsto> 257], vocab = seed_vocab\<rparr>) (merge (map uint [97, 97, 97 :: byte]) p idx))" by blast
  from th e have c2: "(\<exists>out. encode \<lparr>merges = [(97, 97) \<mapsto> 256, (256, 97) \<mapsto> 257], vocab = seed_vocab\<rparr> [97, 97, 97] = Some (Inr out)
         \<and> (\<forall>q\<in>set (zip out (tl out)). merges \<lparr>merges = [(97, 97) \<mapsto> 256, (256, 97) \<mapsto> 257], vocab = seed_vocab\<rparr> q = None))" by blast
  have r: "encode \<lparr>merges = [(97, 97) \<mapsto> 256, (256, 97) \<mapsto> 257], vocab = seed_vocab\<rparr> [97, 97, 97] = Some (Inr [257])" by (rule encode_aaa)
  have m: "merge (map uint [97, 97, 97 :: byte]) (97, 97) 256 = [256, 97]" by simp
  from e l ex c1 c2 r m show ?thesis by blast
qed

section \<open>The mask against the scan\<close>

lemma mask_merge_from:
  "mask_merge ids (zip (butlast ids) (tl ids)) p idx = mask_from False ids p idx"
  by (simp add: mask_merge_def mask_from_def zip_butlast_tl Let_def)

lemma mask_from_Nil: "mask_from marked [] p idx = []"
  by (simp add: mask_from_def)

lemma mask_from_single: "mask_from marked [x] p idx = (if marked then [] else [x])"
  by (simp add: mask_from_def)

lemma mask_from_Cons:
  "mask_from marked (x # y # rest) p idx =
     (if marked then [] else [if (x, y) = p then idx else x])
       @ mask_from ((x, y) = p) (y # rest) p idx"
  by (simp add: mask_from_def)

lemma mask_from_after_match:
  assumes "fst p \<noteq> snd p"
  shows "mask_from True (snd p # rest) p idx = mask_from False rest p idx"
proof (cases rest)
  case Nil
  then show ?thesis by (simp add: mask_from_single mask_from_Nil)
next
  case (Cons z rest')
  from assms have "(snd p, z) \<noteq> p" by (cases p) auto
  with Cons show ?thesis by (simp add: mask_from_Cons)
qed

lemma mask_from_merge:
  "fst p \<noteq> snd p \<Longrightarrow> mask_from False ids p idx = merge ids p idx"
proof (induction ids p idx rule: merge.induct)
  case (1 a b rest p idx)
  show ?case
  proof (cases "a = fst p \<and> b = snd p")
    case True
    then have ab: "(a, b) = p" by (cases p) simp
    have "mask_from False (a # b # rest) p idx = idx # mask_from True (b # rest) p idx"
      using ab by (simp add: mask_from_Cons)
    also have "\<dots> = idx # mask_from False rest p idx"
      using True mask_from_after_match [OF "1.prems", of rest idx] by simp
    also have "\<dots> = idx # merge rest p idx" using "1.IH"(1) True "1.prems" by simp
    finally show ?thesis using True by simp
  next
    case False
    then have ab: "(a, b) \<noteq> p" by (cases p) auto
    have "mask_from False (a # b # rest) p idx = a # mask_from False (b # rest) p idx"
      using ab by (simp add: mask_from_Cons)
    also have "\<dots> = a # merge (b # rest) p idx" using "1.IH"(2) False "1.prems" by simp
    finally show ?thesis using False by auto
  qed
qed (simp_all add: mask_from_Nil mask_from_single)

lemma mask_merge_eq_merge:
  "fst p \<noteq> snd p \<Longrightarrow> mask_merge ids (zip (butlast ids) (tl ids)) p idx = merge ids p idx"
  by (simp add: mask_merge_from mask_from_merge)

section \<open>\<open>train\<close> against \<open>train_vectorized\<close>\<close>

lemma argmax_None: "argmax counts = None \<longleftrightarrow> counts = []"
  by (cases counts) (simp_all add: argmax_def)

lemma unique_counts_empty: "snd (unique_counts pairs) = [] \<longleftrightarrow> pairs = []"
proof -
  have "sort (remdups pairs) = [] \<longleftrightarrow> pairs = []"
    by (metis set_empty set_remdups set_sort)
  then show ?thesis by (simp add: unique_counts_def Let_def)
qed

lemma train_step_eq:
  "train_step i (ids, tk) =
     (case py_max snd (get_stats ids) of
        Inl e \<Rightarrow> Inl e
      | Inr best \<Rightarrow>
          (case vocab_add (vocab tk) (fst best) (256 + int i) of
             Inl e \<Rightarrow> Inl e
           | Inr v' \<Rightarrow>
               Inr (merge ids (fst best) (256 + int i),
                    \<lparr>merges = (merges tk)(fst best \<mapsto> 256 + int i), vocab = v'\<rparr>)))"
  by (simp add: train_step_def Let_def split: sum.splits)

lemma steps_agree:
  assumes u: "\<forall>p c. py_max snd (get_stats ids) = Inr (p, c) \<longrightarrow>
                fst p \<noteq> snd p
                \<and> (\<forall>q\<in>set (zip ids (tl ids)). q \<noteq> p \<longrightarrow> count_list (zip ids (tl ids)) q < c)"
  shows "vectorized_step i (ids, tk) = train_step i (ids, tk)"
proof (cases "length ids < 2")
  case True
  then show ?thesis
    by (simp add: vectorized_step_no_pairs train_step_no_pairs get_stats_short)
next
  case False
  then have ne: "get_stats ids \<noteq> []" by (simp add: get_stats_empty_iff)
  then obtain best where best: "py_max snd (get_stats ids) = Inr best"
    by (cases "get_stats ids") (simp_all add: py_max_def)
  obtain p c where pc: "best = (p, c)" by (cases best)
  from best pc have sel: "py_max snd (get_stats ids) = Inr (p, c)" by simp
  from u sel have d: "fst p \<noteq> snd p"
    and uniq: "\<forall>q\<in>set (zip ids (tl ids)). q \<noteq> p \<longrightarrow> count_list (zip ids (tl ids)) q < c"
    by blast+
  from py_max_stats_select [OF sel] have pm: "p \<in> set (zip ids (tl ids))"
    and c: "c = count_list (zip ids (tl ids)) p"
    by blast+
  from pm have "zip ids (tl ids) \<noteq> []" by auto
  then have "argmax (snd (unique_counts (zip ids (tl ids)))) \<noteq> None"
    by (simp add: argmax_None unique_counts_empty)
  then obtain k where k: "argmax (snd (unique_counts (zip ids (tl ids)))) = Some k" by blast
  define p' where "p' = fst (unique_counts (zip ids (tl ids))) ! k"
  from unique_counts_select [OF k] have p'm: "p' \<in> set (zip ids (tl ids))"
    and mx: "\<forall>q\<in>set (zip ids (tl ids)). count_list (zip ids (tl ids)) q \<le> count_list (zip ids (tl ids)) p'"
    unfolding p'_def by blast+
  have pp: "p' = p"
  proof (rule ccontr)
    assume "p' \<noteq> p"
    with uniq p'm have "count_list (zip ids (tl ids)) p' < c" by blast
    moreover from mx pm have "c \<le> count_list (zip ids (tl ids)) p'" unfolding c by blast
    ultimately show False by simp
  qed
  have mm: "mask_merge ids (zip ids (tl ids)) p (256 + int i) = merge ids p (256 + int i)"
    using mask_merge_eq_merge [OF d, of ids "256 + int i"] by (simp add: zip_butlast_tl)
  from pp have pk: "fst (unique_counts (zip ids (tl ids))) ! k = p" by (simp add: p'_def)
  show ?thesis
    using k sel pk mm
    by (cases "vocab_add (vocab tk) p (256 + int i)")
       (simp_all add: vectorized_step_eq train_step_eq)
qed

lemma loops_agree:
  assumes "\<forall>j ids tk p c. j < n \<and> train_loop 0 j st0 = Inr (ids, tk)
              \<and> py_max snd (get_stats ids) = Inr (p, c) \<longrightarrow>
                fst p \<noteq> snd p
                \<and> (\<forall>q\<in>set (zip ids (tl ids)). q \<noteq> p \<longrightarrow> count_list (zip ids (tl ids)) q < c)"
  shows "vectorized_loop 0 n st0 = train_loop 0 n st0"
  using assms
proof (induction n)
  case 0
  show ?case by simp
next
  case (Suc n)
  have ih: "vectorized_loop 0 n st0 = train_loop 0 n st0"
    by (rule Suc.IH) (use Suc.prems in \<open>blast intro: less_SucI\<close>)
  have v: "vectorized_loop 0 (n + Suc 0) st0 =
             (case vectorized_loop 0 n st0 of Inl e \<Rightarrow> Inl e
              | Inr st' \<Rightarrow> vectorized_loop (0 + n) (Suc 0) st')"
    by (rule vectorized_loop_add)
  have t: "train_loop 0 (n + Suc 0) st0 =
             (case train_loop 0 n st0 of Inl e \<Rightarrow> Inl e
              | Inr st' \<Rightarrow> train_loop (0 + n) (Suc 0) st')"
    by (rule train_loop_add)
  show ?case
  proof (cases "train_loop 0 n st0")
    case (Inl e)
    with v t ih show ?thesis by simp
  next
    case (Inr st)
    obtain ids tk where st: "st = (ids, tk)" by (cases st)
    have "vectorized_step n (ids, tk) = train_step n (ids, tk)"
    proof (rule steps_agree, intro allI impI)
      fix p c assume "py_max snd (get_stats ids) = Inr (p, c)"
      with Suc.prems Inr st show "fst p \<noteq> snd p
                \<and> (\<forall>q\<in>set (zip ids (tl ids)). q \<noteq> p \<longrightarrow> count_list (zip ids (tl ids)) q < c)"
        by blast
    qed
    with v t ih Inr st show ?thesis by (simp split: sum.splits)
  qed
qed

section \<open>Where the three strategies agree\<close>

lemma utf8_encode_ababcabc: "utf8_encode [97, 98, 97, 98, 99, 97, 98, 99] = Inr [97, 98, 97, 98, 99, 97, 98, 99]"
  by (simp add: utf8_encode_def utf8_encode_cp_def)

lemma train_step_ababcabc_0:
  "train_step 0 ([97, 98, 97, 98, 99, 97, 98, 99], \<lparr>merges = Map.empty, vocab = seed_vocab\<rparr>)
     = Inr ([256, 256, 99, 256, 99],
            \<lparr>merges = [(97, 98) \<mapsto> 256], vocab = seed_vocab(256 \<mapsto> [97, 98])\<rparr>)"
  by (simp add: train_step_def get_stats_def py_max_def vocab_add_def seed_vocab_def Let_def)

lemma train_step_ababcabc_1:
  "train_step (Suc 0) ([256, 256, 99, 256, 99],
            \<lparr>merges = [(97, 98) \<mapsto> 256], vocab = seed_vocab(256 \<mapsto> [97, 98])\<rparr>)
     = Inr ([256, 257, 257], \<lparr>merges = [(97, 98) \<mapsto> 256, (256, 99) \<mapsto> 257], vocab = seed_vocab(256 \<mapsto> [97, 98], 257 \<mapsto> [97, 98, 99])\<rparr>)"
  by (simp add: train_step_def get_stats_def py_max_def vocab_add_def seed_vocab_def Let_def)

lemma train_ababcabc: "train [97, 98, 97, 98, 99, 97, 98, 99] 258 = Inr \<lparr>merges = [(97, 98) \<mapsto> 256, (256, 99) \<mapsto> 257], vocab = seed_vocab(256 \<mapsto> [97, 98], 257 \<mapsto> [97, 98, 99])\<rparr>"
proof -
  have n: "nat (258 - 256) = Suc (Suc 0)" by simp
  show ?thesis
    unfolding train_def utf8_encode_ababcabc n
    by (simp add: train_step_ababcabc_0 train_step_ababcabc_1)
qed

lemma py_max_ababcabc_0: "py_max snd (get_stats [97, 98, 97, 98, 99, 97, 98, 99]) = Inr ((97, 98), 3)"
  by (simp add: get_stats_def py_max_def)

lemma py_max_ababcabc_1: "py_max snd (get_stats [256, 256, 99, 256, 99]) = Inr ((256, 99), 2)"
  by (simp add: get_stats_def py_max_def)

text \<open>
  C1, amended. \<open>train_gpu\<close> and \<open>train_vectorized\<close> complete on the same inputs and
  then give the same merge table and the same vocabulary. An iteration of \<open>train\<close> and
  one of \<open>train_vectorized\<close> on the same state do the same whenever a single pair has
  the maximal count and its two ids differ; then the mask and the scan give the same
  sequence. So if that holds in every iteration of the run of \<open>train\<close>, all three
  strategies give the same result. Nothing is said here of a merged pair of two equal
  ids.
\<close>

theorem strategies_agree:
  "((train_gpu s vocab_size = Inr tk) = (train_vectorized s vocab_size = Inr tk))
   \<and> ((\<forall>p c. py_max snd (get_stats ids) = Inr (p, c) \<longrightarrow>
          fst p \<noteq> snd p
          \<and> (\<forall>q\<in>set (zip ids (tl ids)). q \<noteq> p \<longrightarrow> count_list (zip ids (tl ids)) q < c))
        \<longrightarrow> vectorized_step i (ids, tk') = train_step i (ids, tk'))
   \<and> (utf8_encode s = Inr bs \<and> (\<forall>j ids tk p c. j < nat (vocab_size - 256) \<and> train_loop 0 j (map uint bs, \<lparr>merges = Map.empty, vocab = seed_vocab\<rparr>) = Inr (ids, tk)
              \<and> py_max snd (get_stats ids) = Inr (p, c) \<longrightarrow>
                fst p \<noteq> snd p
                \<and> (\<forall>q\<in>set (zip ids (tl ids)). q \<noteq> p \<longrightarrow> count_list (zip ids (tl ids)) q < c))
        \<longrightarrow> train_vectorized s vocab_size = train s vocab_size
          \<and> ((train_gpu s vocab_size = Inr tk) = (train s vocab_size = Inr tk)))
   \<and> (fst p \<noteq> snd p \<longrightarrow> mask_merge ids (zip (butlast ids) (tl ids)) p idx = merge ids p idx)"
proof (intro conjI impI)
  show g: "(train_gpu s vocab_size = Inr tk) = (train_vectorized s vocab_size = Inr tk)"
    by (rule train_gpu_vectorized)
  assume a: "utf8_encode s = Inr bs \<and> (\<forall>j ids tk p c. j < nat (vocab_size - 256) \<and> train_loop 0 j (map uint bs, \<lparr>merges = Map.empty, vocab = seed_vocab\<rparr>) = Inr (ids, tk)
              \<and> py_max snd (get_stats ids) = Inr (p, c) \<longrightarrow>
                fst p \<noteq> snd p
                \<and> (\<forall>q\<in>set (zip ids (tl ids)). q \<noteq> p \<longrightarrow> count_list (zip ids (tl ids)) q < c))"
  then have "vectorized_loop 0 (nat (vocab_size - 256)) (map uint bs, \<lparr>merges = Map.empty, vocab = seed_vocab\<rparr>)
               = train_loop 0 (nat (vocab_size - 256)) (map uint bs, \<lparr>merges = Map.empty, vocab = seed_vocab\<rparr>)"
    using loops_agree [of "nat (vocab_size - 256)" "(map uint bs, \<lparr>merges = Map.empty, vocab = seed_vocab\<rparr>)"] by blast
  with a show tv: "train_vectorized s vocab_size = train s vocab_size"
    by (simp add: train_vectorized_def train_def)
  from g tv show "(train_gpu s vocab_size = Inr tk) = (train s vocab_size = Inr tk)" by simp
next
  assume "\<forall>p c. py_max snd (get_stats ids) = Inr (p, c) \<longrightarrow>
          fst p \<noteq> snd p
          \<and> (\<forall>q\<in>set (zip ids (tl ids)). q \<noteq> p \<longrightarrow> count_list (zip ids (tl ids)) q < c)"
  then show "vectorized_step i (ids, tk') = train_step i (ids, tk')" by (rule steps_agree)
next
  assume "fst p \<noteq> snd p"
  then show "mask_merge ids (zip (butlast ids) (tl ids)) p idx = merge ids p idx"
    by (rule mask_merge_eq_merge)
qed

theorem strategies_agree_witness:
  "utf8_encode [97, 98, 97, 98, 99, 97, 98, 99] = Inr [97, 98, 97, 98, 99, 97, 98, 99]
   \<and> py_max snd (get_stats [97, 98, 97, 98, 99, 97, 98, 99]) = Inr ((97, 98), 3)
   \<and> train_step 0 ([97, 98, 97, 98, 99, 97, 98, 99], \<lparr>merges = Map.empty, vocab = seed_vocab\<rparr>)
       = Inr ([256, 256, 99, 256, 99],
              \<lparr>merges = [(97, 98) \<mapsto> 256], vocab = seed_vocab(256 \<mapsto> [97, 98])\<rparr>)
   \<and> py_max snd (get_stats [256, 256, 99, 256, 99]) = Inr ((256, 99), 2)
   \<and> train [97, 98, 97, 98, 99, 97, 98, 99] 258 = Inr \<lparr>merges = [(97, 98) \<mapsto> 256, (256, 99) \<mapsto> 257], vocab = seed_vocab(256 \<mapsto> [97, 98], 257 \<mapsto> [97, 98, 99])\<rparr>
   \<and> train_vectorized [97, 98, 97, 98, 99, 97, 98, 99] 258 = Inr \<lparr>merges = [(97, 98) \<mapsto> 256, (256, 99) \<mapsto> 257], vocab = seed_vocab(256 \<mapsto> [97, 98], 257 \<mapsto> [97, 98, 99])\<rparr>
   \<and> train_gpu [97, 98, 97, 98, 99, 97, 98, 99] 258 = Inr \<lparr>merges = [(97, 98) \<mapsto> 256, (256, 99) \<mapsto> 257], vocab = seed_vocab(256 \<mapsto> [97, 98], 257 \<mapsto> [97, 98, 99])\<rparr>"
proof -
  have e: "utf8_encode [97, 98, 97, 98, 99, 97, 98, 99] = Inr [97, 98, 97, 98, 99, 97, 98, 99]" by (rule utf8_encode_ababcabc)
  have u: "map uint [97, 98, 97, 98, 99, 97, 98, 99 :: byte] = [97, 98, 97, 98, 99, 97, 98, 99]" by simp
  have c: "(\<forall>j ids tk p c. j < nat (258 - 256) \<and> train_loop 0 j (map uint [97, 98, 97, 98, 99, 97, 98, 99 :: byte], \<lparr>merges = Map.empty, vocab = seed_vocab\<rparr>) = Inr (ids, tk)
              \<and> py_max snd (get_stats ids) = Inr (p, c) \<longrightarrow>
                fst p \<noteq> snd p
                \<and> (\<forall>q\<in>set (zip ids (tl ids)). q \<noteq> p \<longrightarrow> count_list (zip ids (tl ids)) q < c))"
  proof (intro allI impI)
    fix j ids tk p c
    assume a: "j < nat (258 - 256) \<and> train_loop 0 j (map uint [97, 98, 97, 98, 99, 97, 98, 99 :: byte], \<lparr>merges = Map.empty, vocab = seed_vocab\<rparr>) = Inr (ids, tk)
              \<and> py_max snd (get_stats ids) = Inr (p, c)"
    then have "j = 0 \<or> j = Suc 0" by auto
    then show "fst p \<noteq> snd p
                \<and> (\<forall>q\<in>set (zip ids (tl ids)). q \<noteq> p \<longrightarrow> count_list (zip ids (tl ids)) q < c)"
    proof
      assume "j = 0"
      with a have "ids = [97, 98, 97, 98, 99, 97, 98, 99]" by simp
      with a py_max_ababcabc_0 have "p = (97, 98)" "c = 3" by simp_all
      with \<open>ids = [97, 98, 97, 98, 99, 97, 98, 99]\<close> show ?thesis by auto
    next
      assume "j = Suc 0"
      with a have "ids = [256, 256, 99, 256, 99]" by (simp add: train_step_ababcabc_0)
      with a py_max_ababcabc_1 have "p = (256, 99)" "c = 2" by simp_all
      with \<open>ids = [256, 256, 99, 256, 99]\<close> show ?thesis by auto
    qed
  qed
  have t: "train [97, 98, 97, 98, 99, 97, 98, 99] 258 = Inr \<lparr>merges = [(97, 98) \<mapsto> 256, (256, 99) \<mapsto> 257], vocab = seed_vocab(256 \<mapsto> [97, 98], 257 \<mapsto> [97, 98, 99])\<rparr>" by (rule train_ababcabc)
  note th = strategies_agree [of "[97, 98, 97, 98, 99, 97, 98, 99]" 258 "\<lparr>merges = [(97, 98) \<mapsto> 256, (256, 99) \<mapsto> 257], vocab = seed_vocab(256 \<mapsto> [97, 98], 257 \<mapsto> [97, 98, 99])\<rparr>" "[]" 0 "\<lparr>merges = Map.empty, vocab = seed_vocab\<rparr>" "[97, 98, 97, 98, 99, 97, 98, 99]" "(0, 0)" 0,
      THEN conjunct2, THEN conjunct2, THEN conjunct1, rule_format]
  from e c have "train_vectorized [97, 98, 97, 98, 99, 97, 98, 99] 258 = train [97, 98, 97, 98, 99, 97, 98, 99] 258
        \<and> ((train_gpu [97, 98, 97, 98, 99, 97, 98, 99] 258 = Inr \<lparr>merges = [(97, 98) \<mapsto> 256, (256, 99) \<mapsto> 257], vocab = seed_vocab(256 \<mapsto> [97, 98], 257 \<mapsto> [97, 98, 99])\<rparr>) = (train [97, 98, 97, 98, 99, 97, 98, 99] 258 = Inr \<lparr>merges = [(97, 98) \<mapsto> 256, (256, 99) \<mapsto> 257], vocab = seed_vocab(256 \<mapsto> [97, 98], 257 \<mapsto> [97, 98, 99])\<rparr>))"
    by (intro th conjI)
  with t have "train_vectorized [97, 98, 97, 98, 99, 97, 98, 99] 258 = Inr \<lparr>merges = [(97, 98) \<mapsto> 256, (256, 99) \<mapsto> 257], vocab = seed_vocab(256 \<mapsto> [97, 98], 257 \<mapsto> [97, 98, 99])\<rparr>
        \<and> train_gpu [97, 98, 97, 98, 99, 97, 98, 99] 258 = Inr \<lparr>merges = [(97, 98) \<mapsto> 256, (256, 99) \<mapsto> 257], vocab = seed_vocab(256 \<mapsto> [97, 98], 257 \<mapsto> [97, 98, 99])\<rparr>"
    by simp
  with e t py_max_ababcabc_0 py_max_ababcabc_1 train_step_ababcabc_0 show ?thesis by blast
qed

section \<open>UTF-8: encoding, and decoding with replacement\<close>

lemma dec2:
  "0xC2 \<le> b1 \<Longrightarrow> b1 < 0xE0 \<Longrightarrow> is_cont b2
   \<Longrightarrow> utf8_decode_ints (b1 # b2 # s) = ((b1 - 0xC0) * 64 + (b2 - 0x80)) # utf8_decode_ints s"
  by simp

lemma dec3:
  "0xE0 \<le> b1 \<Longrightarrow> b1 < 0xF0 \<Longrightarrow> is_cont b2
   \<Longrightarrow> \<not> (if b2 < 0xA0 then b1 = 0xE0 else b1 = 0xED) \<Longrightarrow> is_cont b3
   \<Longrightarrow> utf8_decode_ints (b1 # b2 # b3 # s)
       = ((b1 - 0xE0) * 4096 + (b2 - 0x80) * 64 + (b3 - 0x80)) # utf8_decode_ints s"
  by simp

lemma dec4:
  "0xF0 \<le> b1 \<Longrightarrow> b1 < 0xF5 \<Longrightarrow> is_cont b2
   \<Longrightarrow> \<not> (if b2 < 0x90 then b1 = 0xF0 else b1 = 0xF4) \<Longrightarrow> is_cont b3 \<Longrightarrow> is_cont b4
   \<Longrightarrow> utf8_decode_ints (b1 # b2 # b3 # b4 # s)
       = ((b1 - 0xF0) * 262144 + (b2 - 0x80) * 4096 + (b3 - 0x80) * 64 + (b4 - 0x80))
         # utf8_decode_ints s"
  by simp

lemma is_cont_mod: "is_cont (0x80 + x mod 64)"
  by (simp add: is_cont_def)

lemma div_4096: "(c :: int) div 4096 = c div 64 div 64"
  using zdiv_zmult2_eq [of 64 c 64] by simp

lemma div_262144: "(c :: int) div 262144 = c div 64 div 64 div 64"
  using zdiv_zmult2_eq [of 64 c 4096] by (simp add: div_4096)

lemma mod_64_eq: "(c :: int) mod 64 = c - 64 * (c div 64)"
  by (simp add: minus_mult_div_eq_mod)

lemma digit_bounds: "64 * ((c :: int) div 64) \<le> c \<and> c < 64 * (c div 64) + 64"
  using div_mult_mod_eq [of c 64] pos_mod_bound [of 64 c] pos_mod_sign [of 64 c] by linarith

lemma utf8_cp_roundtrip:
  assumes "utf8_encode_cp c = Some bs"
  shows "utf8_decode_ints (bs @ rest) = c # utf8_decode_ints rest"
proof -
  from assms have range: "0 \<le> c" "c < 0x110000"
    by (auto simp: utf8_encode_cp_def split: if_splits)
  define q1 where "q1 = c div 64"
  define q2 where "q2 = q1 div 64"
  define q3 where "q3 = q2 div 64"
  have d1: "64 * q1 \<le> c" "c < 64 * q1 + 64" unfolding q1_def using digit_bounds [of c] by simp_all
  have d2: "64 * q2 \<le> q1" "q1 < 64 * q2 + 64" unfolding q2_def using digit_bounds [of q1] by simp_all
  have d3: "64 * q3 \<le> q2" "q2 < 64 * q3 + 64" unfolding q3_def using digit_bounds [of q2] by simp_all
  have e1: "c div 64 = q1" "c mod 64 = c - 64 * q1" by (simp_all add: q1_def mod_64_eq)
  have e2: "c div 4096 = q2" "(c div 64) mod 64 = q1 - 64 * q2"
    by (simp_all add: div_4096 q1_def q2_def mod_64_eq)
  have e3: "c div 262144 = q3" "(c div 4096) mod 64 = q2 - 64 * q3"
    by (simp_all add: div_262144 div_4096 q1_def q2_def q3_def mod_64_eq)
  consider "c < 0x80" | "0x80 \<le> c" "c < 0x800" | "0x800 \<le> c" "c < 0x10000" | "0x10000 \<le> c"
    by linarith
  then show ?thesis
  proof cases
    case 1
    with assms range have "bs = [c]" by (simp add: utf8_encode_cp_def)
    with 1 show ?thesis by simp
  next
    case 2
    with assms range have bs: "bs = [0xC0 + q1, 0x80 + c mod 64]"
      by (simp add: utf8_encode_cp_def e1)
    from 2 d1 have a: "0xC2 \<le> 0xC0 + q1" "0xC0 + q1 < 0xE0" by linarith+
    have "(0xC0 + q1 - 0xC0) * 64 + (0x80 + c mod 64 - 0x80) = c" by (simp add: e1)
    with dec2 [OF a is_cont_mod] show ?thesis unfolding bs by simp
  next
    case 3
    from assms 3 range have ns: "c < 0xD800 \<or> 0xDFFF < c"
      by (cases "0xD800 \<le> c \<and> c \<le> 0xDFFF") (auto simp: utf8_encode_cp_def)
    with assms 3 range
    have bs: "bs = [0xE0 + q2, 0x80 + q1 mod 64, 0x80 + c mod 64]"
      by (cases "0xD800 \<le> c \<and> c \<le> 0xDFFF") (simp_all add: utf8_encode_cp_def e1 e2)
    from 3 d1 d2 have a: "0xE0 \<le> 0xE0 + q2" "0xE0 + q2 < 0xF0" by linarith+
    have m: "q1 mod 64 = q1 - 64 * q2" using e2 by (simp add: e1)
    have b: "\<not> (if 0x80 + q1 mod 64 < 0xA0 then 0xE0 + q2 = 0xE0 else 0xE0 + q2 = 0xED)"
      unfolding m using 3 ns d1 d2 by (simp split: if_splits; linarith)
    have "(0xE0 + q2 - 0xE0) * 4096 + (0x80 + q1 mod 64 - 0x80) * 64 + (0x80 + c mod 64 - 0x80) = c"
      unfolding m by (simp add: e1)
    with dec3 [OF a is_cont_mod b is_cont_mod] show ?thesis unfolding bs by simp
  next
    case 4
    with assms range have
      bs: "bs = [0xF0 + q3, 0x80 + q2 mod 64, 0x80 + q1 mod 64, 0x80 + c mod 64]"
      by (simp add: utf8_encode_cp_def e1 e2 e3)
    from 4 range d1 d2 d3 have a: "0xF0 \<le> 0xF0 + q3" "0xF0 + q3 < 0xF5" by linarith+
    have m1: "q1 mod 64 = q1 - 64 * q2" using e2 by (simp add: e1)
    have m2: "q2 mod 64 = q2 - 64 * q3" using e3 by (simp add: e2)
    have b: "\<not> (if 0x80 + q2 mod 64 < 0x90 then 0xF0 + q3 = 0xF0 else 0xF0 + q3 = 0xF4)"
      unfolding m2 using 4 range d1 d2 d3 by (simp split: if_splits; linarith)
    have "(0xF0 + q3 - 0xF0) * 262144 + (0x80 + q2 mod 64 - 0x80) * 4096
            + (0x80 + q1 mod 64 - 0x80) * 64 + (0x80 + c mod 64 - 0x80) = c"
      unfolding m1 m2 by (simp add: e1)
    with dec4 [OF a is_cont_mod b is_cont_mod is_cont_mod] show ?thesis
      unfolding bs by simp
  qed
qed


lemma div_mod_digit:
  "0 \<le> l \<Longrightarrow> l < 64 \<Longrightarrow> (k * 64 + l) div 64 = (k :: int) \<and> (k * 64 + l) mod 64 = l"
  by simp

lemma enc2:
  assumes "0xC2 \<le> b1" "b1 < 0xE0" "is_cont b2"
  shows "utf8_encode_cp ((b1 - 0xC0) * 64 + (b2 - 0x80)) = Some [b1, b2]"
proof -
  define k where "k = b1 - 0xC0"
  define l where "l = b2 - 0x80"
  from assms have k: "2 \<le> k" "k < 32" and l: "0 \<le> l" "l < 64"
    by (simp_all add: k_def l_def is_cont_def)
  from div_mod_digit [OF l, of k] have d: "(k * 64 + l) div 64 = k" "(k * 64 + l) mod 64 = l"
    by blast+
  from k l have r: "\<not> k * 64 + l < 0" "\<not> k * 64 + l < 0x80" "k * 64 + l < 0x800"
    by linarith+
  have "utf8_encode_cp (k * 64 + l) = Some [0xC0 + k, 0x80 + l]"
    unfolding utf8_encode_cp_def using r d by simp
  then show ?thesis by (simp add: k_def l_def)
qed

lemma enc3:
  assumes "0xE0 \<le> b1" "b1 < 0xF0" "is_cont b2"
    and "\<not> (if b2 < 0xA0 then b1 = 0xE0 else b1 = 0xED)" and "is_cont b3"
  shows "utf8_encode_cp ((b1 - 0xE0) * 4096 + (b2 - 0x80) * 64 + (b3 - 0x80)) = Some [b1, b2, b3]"
proof -
  define h where "h = b1 - 0xE0"
  define k where "k = b2 - 0x80"
  define l where "l = b3 - 0x80"
  define c where "c = (h * 64 + k) * 64 + l"
  from assms have h: "0 \<le> h" "h < 16" and k: "0 \<le> k" "k < 64" and l: "0 \<le> l" "l < 64"
    by (simp_all add: h_def k_def l_def is_cont_def)
  from assms(4) have x: "k < 32 \<longrightarrow> h \<noteq> 0" "32 \<le> k \<longrightarrow> h \<noteq> 13"
    by (auto simp: h_def k_def split: if_splits)
  from div_mod_digit [OF l, of "h * 64 + k"] have d1: "c div 64 = h * 64 + k" "c mod 64 = l"
    unfolding c_def by blast+
  from div_mod_digit [OF k, of h] have d2: "c div 4096 = h" "(c div 64) mod 64 = k"
    unfolding div_4096 d1 by blast+
  have r: "\<not> c < 0" "\<not> c < 0x80" "\<not> c < 0x800" "c < 0x10000"
    unfolding c_def using h k l x by (auto; linarith)+
  have "h < 13 \<or> (h = 13 \<and> k < 32) \<or> 13 < h"
    using x by linarith
  then have s: "\<not> (0xD800 \<le> c \<and> c \<le> 0xDFFF)"
  proof (elim disjE)
    assume "h < 13"
    then have "c < 0xD800" unfolding c_def using k l by simp
    then show ?thesis by simp
  next
    assume "h = 13 \<and> k < 32"
    then have "c < 0xD800" unfolding c_def using l by simp
    then show ?thesis by simp
  next
    assume "13 < h"
    then have "0xDFFF < c" unfolding c_def using k l by simp
    then show ?thesis by simp
  qed
  note r = r s
  have "utf8_encode_cp c = Some [0xE0 + h, 0x80 + k, 0x80 + l]"
    unfolding utf8_encode_cp_def using r d1 d2 by simp
  moreover have "c = (b1 - 0xE0) * 4096 + (b2 - 0x80) * 64 + (b3 - 0x80)"
    by (simp add: c_def h_def k_def l_def algebra_simps)
  ultimately show ?thesis by (simp add: h_def k_def l_def)
qed

lemma enc4:
  assumes "0xF0 \<le> b1" "b1 < 0xF5" "is_cont b2"
    and "\<not> (if b2 < 0x90 then b1 = 0xF0 else b1 = 0xF4)" and "is_cont b3" and "is_cont b4"
  shows "utf8_encode_cp ((b1 - 0xF0) * 262144 + (b2 - 0x80) * 4096 + (b3 - 0x80) * 64 + (b4 - 0x80))
           = Some [b1, b2, b3, b4]"
proof -
  define g where "g = b1 - 0xF0"
  define h where "h = b2 - 0x80"
  define k where "k = b3 - 0x80"
  define l where "l = b4 - 0x80"
  define c where "c = ((g * 64 + h) * 64 + k) * 64 + l"
  from assms have g: "0 \<le> g" "g < 5" and h: "0 \<le> h" "h < 64"
    and k: "0 \<le> k" "k < 64" and l: "0 \<le> l" "l < 64"
    by (simp_all add: g_def h_def k_def l_def is_cont_def)
  from assms(4) have x: "h < 16 \<longrightarrow> g \<noteq> 0" "16 \<le> h \<longrightarrow> g \<noteq> 4"
    by (auto simp: g_def h_def split: if_splits)
  from div_mod_digit [OF l, of "(g * 64 + h) * 64 + k"]
  have d1: "c div 64 = (g * 64 + h) * 64 + k" "c mod 64 = l"
    unfolding c_def by blast+
  from div_mod_digit [OF k, of "g * 64 + h"]
  have d2: "c div 4096 = g * 64 + h" "(c div 64) mod 64 = k"
    unfolding div_4096 d1 by blast+
  from div_mod_digit [OF h, of g]
  have d3: "c div 262144 = g" "(c div 4096) mod 64 = h"
    unfolding div_262144 d2 d1 d2 [unfolded div_4096 d1] by blast+
  have r: "\<not> c < 0" "\<not> c < 0x80" "\<not> c < 0x800" "\<not> c < 0x10000" "c < 0x110000"
    unfolding c_def using g h k l x by (auto; linarith)+
  have "utf8_encode_cp c = Some [0xF0 + g, 0x80 + h, 0x80 + k, 0x80 + l]"
    unfolding utf8_encode_cp_def using r d1 d2 d3 by simp
  moreover have "c = (b1 - 0xF0) * 262144 + (b2 - 0x80) * 4096 + (b3 - 0x80) * 64 + (b4 - 0x80)"
    by (simp add: c_def g_def h_def k_def l_def algebra_simps)
  ultimately show ?thesis by (simp add: g_def h_def k_def l_def)
qed

lemma utf8_encode_cp_range:
  assumes "utf8_encode_cp c = Some bs" and "b \<in> set bs"
  shows "0 \<le> b \<and> b < 256"
proof -
  from assms have range: "0 \<le> c" "c < 0x110000"
    by (auto simp: utf8_encode_cp_def split: if_splits)
  define q1 where "q1 = c div 64"
  define q2 where "q2 = q1 div 64"
  define q3 where "q3 = q2 div 64"
  have d1: "64 * q1 \<le> c" "c < 64 * q1 + 64" unfolding q1_def using digit_bounds [of c] by simp_all
  have d2: "64 * q2 \<le> q1" "q1 < 64 * q2 + 64" unfolding q2_def using digit_bounds [of q1] by simp_all
  have d3: "64 * q3 \<le> q2" "q2 < 64 * q3 + 64" unfolding q3_def using digit_bounds [of q2] by simp_all
  have e: "c div 64 = q1" "c div 4096 = q2" "c div 262144 = q3"
    by (simp_all add: div_262144 div_4096 q1_def q2_def q3_def)
  have m: "0 \<le> x mod 64 \<and> x mod 64 < 64" for x :: int by simp
  consider "c < 0x80" | "0x80 \<le> c" "c < 0x800" | "0x800 \<le> c" "c < 0x10000" | "0x10000 \<le> c"
    by linarith
  then show ?thesis
  proof cases
    case 1
    with assms range show ?thesis by (auto simp: utf8_encode_cp_def)
  next
    case 2
    with assms(1) range have bs: "bs = [0xC0 + q1, 0x80 + c mod 64]"
      by (simp add: utf8_encode_cp_def e)
    from 2 d1 have "0 \<le> q1" "q1 < 32" by linarith+
    with assms(2) m [of c] show ?thesis unfolding bs by auto
  next
    case 3
    with assms(1) range
    have bs: "bs = [0xE0 + q2, 0x80 + q1 mod 64, 0x80 + c mod 64]"
      by (cases "0xD800 \<le> c \<and> c \<le> 0xDFFF") (simp_all add: utf8_encode_cp_def e)
    from 3 d1 d2 have "0 \<le> q2" "q2 < 16" by linarith+
    with assms(2) m [of c] m [of q1] show ?thesis unfolding bs by auto
  next
    case 4
    with assms(1) range have
      bs: "bs = [0xF0 + q3, 0x80 + q2 mod 64, 0x80 + q1 mod 64, 0x80 + c mod 64]"
      by (simp add: utf8_encode_cp_def e)
    from 4 range d1 d2 d3 have "0 \<le> q3" "q3 < 5" by linarith+
    with assms(2) m [of c] m [of q1] m [of q2] show ?thesis unfolding bs by auto
  qed
qed

lemma utf8_encode_ints_range:
  "utf8_encode_ints s = Some bs \<Longrightarrow> b \<in> set bs \<Longrightarrow> 0 \<le> b \<and> b < 256"
proof (induction s arbitrary: bs)
  case Nil
  then show ?case by simp
next
  case (Cons c cs)
  from Cons.prems(1) obtain hd_bs rest where
    h: "utf8_encode_cp c = Some hd_bs" and r: "utf8_encode_ints cs = Some rest"
    and bs: "bs = hd_bs @ rest"
    by (auto split: option.splits)
  from Cons.prems(2) bs have "b \<in> set hd_bs \<or> b \<in> set rest" by simp
  then show ?case
    using utf8_encode_cp_range [OF h] Cons.IH [OF r] by blast
qed

lemma utf8_roundtrip_ints:
  "utf8_encode_ints s = Some bs \<Longrightarrow> utf8_decode_ints bs = s"
proof (induction s arbitrary: bs)
  case Nil
  then show ?case by simp
next
  case (Cons c cs)
  from Cons.prems obtain hd_bs rest where
    h: "utf8_encode_cp c = Some hd_bs" and r: "utf8_encode_ints cs = Some rest"
    and bs: "bs = hd_bs @ rest"
    by (auto split: option.splits)
  show ?case
    unfolding bs utf8_cp_roundtrip [OF h] Cons.IH [OF r] ..
qed

lemma uint_byte_of_int: "0 \<le> b \<Longrightarrow> b < 256 \<Longrightarrow> uint (word_of_int b :: byte) = b"
  by (simp add: uint_word_of_int)

lemma map_uint_bytes:
  "\<forall>b\<in>set bs. 0 \<le> b \<and> b < 256 \<Longrightarrow> map uint (map word_of_int bs :: byte list) = bs"
  by (induction bs) (simp_all add: uint_byte_of_int)

lemma utf8_roundtrip:
  assumes "utf8_encode s = Inr bs"
  shows "utf8_decode bs = s"
proof -
  from assms obtain ints where i: "utf8_encode_ints s = Some ints"
    and bs: "bs = map word_of_int ints"
    by (auto simp: utf8_encode_def split: option.splits)
  from utf8_encode_ints_range [OF i] have "map uint bs = ints"
    unfolding bs by (intro map_uint_bytes) blast
  with utf8_roundtrip_ints [OF i] show ?thesis by (simp add: utf8_decode_def)
qed

lemma utf8_encode_cp_nonempty: "utf8_encode_cp c = Some enc \<Longrightarrow> enc \<noteq> []"
  by (auto simp: utf8_encode_cp_def split: if_splits)

lemma utf8_decode_ints_nonempty: "utf8_decode_ints (ch # s) \<noteq> []"
  by (simp split: list.splits)

lemma decode_head:
  assumes dec: "utf8_decode_ints (ch # s) = c # out" and c: "c \<noteq> 0xFFFD" and ch: "0 \<le> ch"
  shows "\<exists>enc rest. ch # s = enc @ rest \<and> utf8_encode_cp c = Some enc
           \<and> out = utf8_decode_ints rest"
proof -
  consider (one) "ch < 0x80" | (bad) "0x80 \<le> ch \<and> ch < 0xC2 \<or> 0xF5 \<le> ch"
    | (two) "0xC2 \<le> ch" "ch < 0xE0" | (three) "0xE0 \<le> ch" "ch < 0xF0"
    | (four) "0xF0 \<le> ch" "ch < 0xF5"
    by linarith
  then show ?thesis
  proof cases
    case one
    with dec have "c = ch" "out = utf8_decode_ints s" by simp_all
    moreover from one ch have "utf8_encode_cp ch = Some [ch]" by (simp add: utf8_encode_cp_def)
    ultimately have "ch # s = [ch] @ s \<and> utf8_encode_cp c = Some [ch] \<and> out = utf8_decode_ints s"
      by simp
    then show ?thesis by blast
  next
    case bad
    then have "utf8_decode_ints (ch # s) = 0xFFFD # utf8_decode_ints s" by auto
    with dec c show ?thesis by simp
  next
    case two
    show ?thesis
    proof (cases s)
      case Nil
      with two have "utf8_decode_ints (ch # s) = [0xFFFD]" by simp
      with dec c show ?thesis by simp
    next
      case (Cons ch2 s2)
      show ?thesis
      proof (cases "is_cont ch2")
        case False
        with two Cons have "utf8_decode_ints (ch # s) = 0xFFFD # utf8_decode_ints s" by simp
        with dec c show ?thesis by simp
      next
        case True
        from dec dec2 [OF two True, of s2] Cons
        have "c = (ch - 0xC0) * 64 + (ch2 - 0x80)" "out = utf8_decode_ints s2" by simp_all
        with enc2 [OF two True] Cons
        have "ch # s = [ch, ch2] @ s2 \<and> utf8_encode_cp c = Some [ch, ch2]
                \<and> out = utf8_decode_ints s2"
          by simp
        then show ?thesis by blast
      qed
    qed
  next
    case three
    show ?thesis
    proof (cases s)
      case Nil
      with three have "utf8_decode_ints (ch # s) = [0xFFFD]" by simp
      with dec c show ?thesis by simp
    next
      case s: (Cons ch2 s2)
      show ?thesis
      proof (cases "is_cont ch2 \<and> \<not> (if ch2 < 0xA0 then ch = 0xE0 else ch = 0xED)")
        case False
        with three s have "utf8_decode_ints (ch # s) = 0xFFFD # utf8_decode_ints s" by auto
        with dec c show ?thesis by simp
      next
        case ok2: True
        show ?thesis
        proof (cases s2)
          case Nil
          with three s ok2 have "utf8_decode_ints (ch # s) = [0xFFFD]" by simp
          with dec c show ?thesis by simp
        next
          case s2: (Cons ch3 s3)
          show ?thesis
          proof (cases "is_cont ch3")
            case False
            with three s s2 ok2 have "utf8_decode_ints (ch # s) = 0xFFFD # utf8_decode_ints s2"
              by simp
            with dec c show ?thesis by simp
          next
            case True
            from ok2 have a: "is_cont ch2" and b: "\<not> (if ch2 < 0xA0 then ch = 0xE0 else ch = 0xED)"
              by blast+
            from dec dec3 [OF three a b True, of s3] s s2
            have "c = (ch - 0xE0) * 4096 + (ch2 - 0x80) * 64 + (ch3 - 0x80)"
              "out = utf8_decode_ints s3" by simp_all
            with enc3 [OF three a b True] s s2
            have "ch # s = [ch, ch2, ch3] @ s3 \<and> utf8_encode_cp c = Some [ch, ch2, ch3]
                    \<and> out = utf8_decode_ints s3"
              by simp
            then show ?thesis by blast
          qed
        qed
      qed
    qed
  next
    case four
    show ?thesis
    proof (cases s)
      case Nil
      with four have "utf8_decode_ints (ch # s) = [0xFFFD]" by simp
      with dec c show ?thesis by simp
    next
      case s: (Cons ch2 s2)
      show ?thesis
      proof (cases "is_cont ch2 \<and> \<not> (if ch2 < 0x90 then ch = 0xF0 else ch = 0xF4)")
        case False
        with four s have "utf8_decode_ints (ch # s) = 0xFFFD # utf8_decode_ints s" by auto
        with dec c show ?thesis by simp
      next
        case ok2: True
        show ?thesis
        proof (cases s2)
          case Nil
          with four s ok2 have "utf8_decode_ints (ch # s) = [0xFFFD]" by simp
          with dec c show ?thesis by simp
        next
          case s2: (Cons ch3 s3)
          show ?thesis
          proof (cases "is_cont ch3")
            case False
            with four s s2 ok2 have "utf8_decode_ints (ch # s) = 0xFFFD # utf8_decode_ints s2"
              by simp
            with dec c show ?thesis by simp
          next
            case ok3: True
            show ?thesis
            proof (cases s3)
              case Nil
              with four s s2 ok2 ok3 have "utf8_decode_ints (ch # s) = [0xFFFD]" by simp
              with dec c show ?thesis by simp
            next
              case s3: (Cons ch4 s4)
              show ?thesis
              proof (cases "is_cont ch4")
                case False
                with four s s2 s3 ok2 ok3
                have "utf8_decode_ints (ch # s) = 0xFFFD # utf8_decode_ints s3" by simp
                with dec c show ?thesis by simp
              next
                case True
                from ok2 have a: "is_cont ch2"
                  and b: "\<not> (if ch2 < 0x90 then ch = 0xF0 else ch = 0xF4)"
                  by blast+
                from dec dec4 [OF four a b ok3 True, of s4] s s2 s3
                have "c = (ch - 0xF0) * 262144 + (ch2 - 0x80) * 4096 + (ch3 - 0x80) * 64
                            + (ch4 - 0x80)"
                  "out = utf8_decode_ints s4" by simp_all
                with enc4 [OF four a b ok3 True] s s2 s3
                have "ch # s = [ch, ch2, ch3, ch4] @ s4
                        \<and> utf8_encode_cp c = Some [ch, ch2, ch3, ch4]
                        \<and> out = utf8_decode_ints s4"
                  by simp
                then show ?thesis by blast
              qed
            qed
          qed
        qed
      qed
    qed
  qed
qed

lemma utf8_decode_ints_valid:
  assumes "\<forall>b\<in>set bs. 0 \<le> b" and "0xFFFD \<notin> set (utf8_decode_ints bs)"
  shows "utf8_encode_ints (utf8_decode_ints bs) = Some bs"
  using assms
proof (induction "length bs" arbitrary: bs rule: less_induct)
  case less
  show ?case
  proof (cases bs)
    case Nil
    then show ?thesis by simp
  next
    case (Cons ch s)
    obtain c out where dec: "utf8_decode_ints (ch # s) = c # out"
      using utf8_decode_ints_nonempty [of ch s] by (cases "utf8_decode_ints (ch # s)") auto
    from less.prems(2) Cons dec have c: "c \<noteq> 0xFFFD" and out: "0xFFFD \<notin> set out" by auto
    from less.prems(1) Cons have ch: "0 \<le> ch" by simp
    from decode_head [OF dec c ch] obtain enc rest where
      split: "ch # s = enc @ rest" and enc: "utf8_encode_cp c = Some enc"
      and rest: "out = utf8_decode_ints rest"
      by blast
    from utf8_encode_cp_nonempty [OF enc] split Cons have len: "length rest < length bs"
      by (cases enc) (auto dest: arg_cong [where f = length])
    from less.prems(1) Cons split have rng: "\<forall>b\<in>set rest. 0 \<le> b"
      by (metis Un_iff set_append)
    from less.hyps [OF len rng] out rest
    have "utf8_encode_ints out = Some rest" by simp
    with enc have "utf8_encode_ints (c # out) = Some (ch # s)" by (simp add: split)
    then show ?thesis unfolding Cons dec .
  qed
qed

lemma map_byte_of_uint: "map word_of_int (map uint bs) = (bs :: byte list)"
  by (induction bs) simp_all

lemma utf8_decode_valid:
  assumes "0xFFFD \<notin> set (utf8_decode bs)"
  shows "utf8_encode (utf8_decode bs) = Inr bs"
proof -
  have "\<forall>b\<in>set (map uint bs). 0 \<le> b" by simp
  from utf8_decode_ints_valid [OF this] assms
  have "utf8_encode_ints (utf8_decode_ints (map uint bs)) = Some (map uint bs)"
    by (simp add: utf8_decode_def)
  then show ?thesis
    unfolding utf8_encode_def utf8_decode_def by (simp only: option.case map_byte_of_uint)
qed

end
